theory Spec2Isabelle
  imports Main "HOL-Library.AList" "HOL-Library.Sublist" "HOL-Library.Multiset"
begin

section \<open>The page as \<^verbatim>\<open>seo-enhancer.js\<close> sees it\<close>

text \<open>
  The script reads and mutates the live document. The document is a tree of nodes; an
  element carries an identity (the object reference a \<^verbatim>\<open>NodeList\<close> holds), its local
  name, its content attributes in order, and its child nodes. Markup assigned to
  \<^verbatim>\<open>innerHTML\<close> becomes the nodes the host's HTML parser makes of it, so that a later
  query finds the elements in it. Strings are byte strings (text outside ASCII in UTF-8),
  and the name of an element is its local name in lower case. The properties
  \<^verbatim>\<open>className\<close> and \<^verbatim>\<open>style.cssText\<close> are the attributes \<^verbatim>\<open>class\<close> and \<^verbatim>\<open>style\<close>,
  holding the text the script assigns.

  A call that throws is the value \<open>Inl\<close> of the exception; the page a thrown call leaves
  behind is not kept, since nothing runs after it in the same sequence.
\<close>

type_synonym attrs = "(string \<times> string) list"

datatype node =
    Text string
  | Element (nid: nat) (localName: string) (attributes: attrs) (childNodes: "node list")

datatype error = TypeError | HierarchyRequestError

text \<open>
  The mutable state of one page: the root element, \<^verbatim>\<open>document.title\<close>, the identity
  the next created element gets, the URLs handed to \<^verbatim>\<open>navigator.sendBeacon\<close>, the
  reports written by \<^verbatim>\<open>console.log\<close>, and the number of listeners registered for
  \<^verbatim>\<open>DOMContentLoaded\<close>.
\<close>

record page =
  documentElement :: node
  title :: string
  next_id :: nat
  beacons :: "string list"
  console :: "(string \<times> nat) list list"
  listeners :: nat

text \<open>
  What the host provides and the script only calls: whether \<^verbatim>\<open>navigator.sendBeacon\<close>
  exists, \<^verbatim>\<open>window.location.origin\<close>, the \<^verbatim>\<open>pathname\<close> of \<^verbatim>\<open>new URL(s)\<close> (\<open>None\<close> when
  the constructor throws), the string a URL-valued property such as \<^verbatim>\<open>img.src\<close> or
  \<^verbatim>\<open>a.href\<close> reports for an attribute value, whether the DOM implements the property
  \<^verbatim>\<open>loading\<close> of an image, the nodes the HTML parser makes of markup assigned to the
  \<^verbatim>\<open>innerHTML\<close> of a \<^verbatim>\<open>div\<close> (the identities in them are not used), and what
  \<^verbatim>\<open>String.prototype.toLowerCase\<close> returns for a string that has a character outside
  ASCII. The theorems hold for every host; the sample hosts further down are two of them.
\<close>

record host =
  has_sendBeacon :: bool
  origin :: string
  URL_pathname :: "string \<Rightarrow> string option"
  resolveURL :: "string \<Rightarrow> string"
  has_loading :: bool
  parseHTML :: "string \<Rightarrow> node list"
  toLowerCase_unicode :: "string \<Rightarrow> string"

definition then_do :: "error + 'a \<Rightarrow> ('a \<Rightarrow> error + 'b) \<Rightarrow> error + 'b" where
  "then_do r f = (case r of Inl e \<Rightarrow> Inl e | Inr x \<Rightarrow> f x)"

fun forEach :: "('a \<Rightarrow> 's \<Rightarrow> error + 's) \<Rightarrow> 'a list \<Rightarrow> 's \<Rightarrow> error + 's" where
  "forEach f [] s = Inr s"
| "forEach f (x # xs) s = (case f x s of Inl e \<Rightarrow> Inl e | Inr s' \<Rightarrow> forEach f xs s')"

subsection \<open>Reading the tree\<close>

text \<open>The elements of a subtree in document order, as \<^verbatim>\<open>querySelectorAll\<close> lists them.\<close>

fun elems :: "node \<Rightarrow> (nat \<times> string \<times> attrs) list" where
  "elems (Element i t a cs) = (i, t, a) # concat (map elems cs)"
| "elems (Text s) = []"

definition ids :: "node \<Rightarrow> nat list" where
  "ids n = map fst (elems n)"

fun nodes :: "node \<Rightarrow> node list" where
  "nodes (Element i t a cs) = Element i t a cs # concat (map nodes cs)"
| "nodes (Text s) = []"

fun is_element :: "nat \<Rightarrow> node \<Rightarrow> bool" where
  "is_element i (Element j t a cs) = (i = j)"
| "is_element i (Text s) = False"

fun has_tag :: "string \<Rightarrow> node \<Rightarrow> bool" where
  "has_tag t (Element j t' a cs) = (t = t')"
| "has_tag t (Text s) = False"

definition getElement :: "nat \<Rightarrow> node \<Rightarrow> node option" where
  "getElement i n = find (is_element i) (nodes n)"

definition getAttrs :: "nat \<Rightarrow> node \<Rightarrow> attrs option" where
  "getAttrs i n = map_option snd (map_of (elems n) i)"

fun textContent :: "node \<Rightarrow> string" where
  "textContent (Text s) = s"
| "textContent (Element i t a cs) = concat (map textContent cs)"

text \<open>
  \<^verbatim>\<open>document.body\<close> and \<^verbatim>\<open>document.head\<close>: the first matching child of the root
  \<^verbatim>\<open>html\<close> element, \<^verbatim>\<open>null\<close> (\<open>None\<close>) when there is none.
\<close>

definition is_body :: "node \<Rightarrow> bool" where
  "is_body n = (has_tag ''body'' n \<or> has_tag ''frameset'' n)"

definition html_child :: "(node \<Rightarrow> bool) \<Rightarrow> page \<Rightarrow> node option" where
  "html_child P p =
     (case documentElement p of
        Element i t a cs \<Rightarrow> if t = ''html'' then find P cs else None
      | _ \<Rightarrow> None)"

definition body :: "page \<Rightarrow> node option" where
  "body p = html_child is_body p"

definition head :: "page \<Rightarrow> node option" where
  "head p = html_child (has_tag ''head'') p"

subsection \<open>Mutating the tree\<close>

fun setAttr :: "string \<Rightarrow> string \<Rightarrow> attrs \<Rightarrow> attrs" where
  "setAttr k v [] = [(k, v)]"
| "setAttr k v ((k', v') # a) = (if k = k' then (k, v) # a else (k', v') # setAttr k v a)"

definition removeAttr :: "string \<Rightarrow> attrs \<Rightarrow> attrs" where
  "removeAttr k a = filter (\<lambda>kv. fst kv \<noteq> k) a"

text \<open>\<open>modify i f\<close> rewrites the attributes of the element with identity \<open>i\<close>.\<close>

fun modify :: "nat \<Rightarrow> (attrs \<Rightarrow> attrs) \<Rightarrow> node \<Rightarrow> node" where
  "modify i f (Element j t a cs) =
     Element j t (if i = j then f a else a) (map (modify i f) cs)"
| "modify i f (Text s) = Text s"

definition setAttribute :: "nat \<Rightarrow> string \<Rightarrow> string \<Rightarrow> page \<Rightarrow> page" where
  "setAttribute i k v p = p\<lparr>documentElement := modify i (setAttr k v) (documentElement p)\<rparr>"

text \<open>\<^verbatim>\<open>parent.insertBefore(new, ref)\<close> for the child \<open>ref\<close> with identity \<open>j\<close>.\<close>

fun insertBefore :: "nat \<Rightarrow> node \<Rightarrow> node \<Rightarrow> node" where
  "insertBefore j new (Element i t a cs) =
     Element i t a
       (concat (map (\<lambda>c. if is_element j c then [new, c] else [insertBefore j new c]) cs))"
| "insertBefore j new (Text s) = Text s"

text \<open>\<^verbatim>\<open>x.appendChild(new)\<close> for the first child \<open>x\<close> that satisfies \<open>P\<close>.\<close>

fun append_in_first :: "(node \<Rightarrow> bool) \<Rightarrow> node \<Rightarrow> node list \<Rightarrow> node list" where
  "append_in_first P new [] = []"
| "append_in_first P new (c # cs) =
     (if P c
      then (case c of Element i t a ks \<Rightarrow> Element i t a (ks @ [new]) # cs | _ \<Rightarrow> c # cs)
      else c # append_in_first P new cs)"

definition html_child_appendChild :: "(node \<Rightarrow> bool) \<Rightarrow> node \<Rightarrow> page \<Rightarrow> error + page" where
  "html_child_appendChild P new p =
     (case html_child P p of
        None \<Rightarrow> Inl TypeError
      | Some x \<Rightarrow>
          (case documentElement p of
             Element i t a cs \<Rightarrow>
               Inr (p\<lparr>documentElement := Element i t a (append_in_first P new cs)\<rparr>)
           | _ \<Rightarrow> Inl TypeError))"

definition body_appendChild :: "node \<Rightarrow> page \<Rightarrow> error + page" where
  "body_appendChild new p = html_child_appendChild is_body new p"

definition head_appendChild :: "node \<Rightarrow> page \<Rightarrow> error + page" where
  "head_appendChild new p = html_child_appendChild (has_tag ''head'') new p"

text \<open>\<^verbatim>\<open>document.createElement\<close>: a new identity; the caller builds the detached element.\<close>

definition createElement :: "page \<Rightarrow> nat \<times> page" where
  "createElement p = (next_id p, p\<lparr>next_id := Suc (next_id p)\<rparr>)"

text \<open>
  \<^verbatim>\<open>x.innerHTML = markup\<close> for a detached \<^verbatim>\<open>div\<close>: its children are the nodes the
  host's parser makes of the markup. Every element among them is a new object: \<open>relabel\<close>
  gives them the next free identities in document order, whatever the host wrote there.
\<close>

fun relabel :: "nat \<Rightarrow> node \<Rightarrow> node \<times> nat"
  and relabel_list :: "nat \<Rightarrow> node list \<Rightarrow> node list \<times> nat" where
  "relabel n (Text s) = (Text s, n)"
| "relabel n (Element i t a cs) =
     (case relabel_list (Suc n) cs of (cs', n') \<Rightarrow> (Element n t a cs', n'))"
| "relabel_list n [] = ([], n)"
| "relabel_list n (c # cs) =
     (case relabel n c of
        (c', n1) \<Rightarrow> (case relabel_list n1 cs of (cs', n2) \<Rightarrow> (c' # cs', n2)))"

definition innerHTML_nodes :: "host \<Rightarrow> string \<Rightarrow> page \<Rightarrow> node list \<times> page" where
  "innerHTML_nodes h markup p =
     (case relabel_list (next_id p) (parseHTML h markup) of
        (children, n) \<Rightarrow> (children, p\<lparr>next_id := n\<rparr>))"

subsection \<open>Selectors and reflected properties\<close>

text \<open>
  The four selector shapes the script uses: \<^verbatim>\<open>main\<close>, \<^verbatim>\<open>.portfolio-item\<close>, \<^verbatim>\<open>#about\<close>
  and \<^verbatim>\<open>a[href]\<close>. A class selector looks for the name among the tokens of the
  \<^verbatim>\<open>class\<close> attribute, which are separated by ASCII whitespace.
\<close>

datatype selector = Tag string | Class string | Id string | TagAttr string string

definition is_space :: "char \<Rightarrow> bool" where
  "is_space c = (c = CHR '' '' \<or> c = CHR 0x09 \<or> c = CHR 0x0A \<or> c = CHR 0x0C \<or> c = CHR 0x0D)"

fun split_tokens :: "string \<Rightarrow> string \<Rightarrow> string list" where
  "split_tokens cur [] = (if cur = [] then [] else [cur])"
| "split_tokens cur (c # cs) =
     (if is_space c
      then (if cur = [] then split_tokens [] cs else cur # split_tokens [] cs)
      else split_tokens (cur @ [c]) cs)"

text \<open>
  A JavaScript \<^verbatim>\<open>Set\<close>, and the ordered set behind \<^verbatim>\<open>classList\<close>, as the list of
  its members in insertion order: adding a member that is present changes nothing.
\<close>

definition Set_add :: "'a list \<Rightarrow> 'a \<Rightarrow> 'a list" where
  "Set_add s x = (if x \<in> set s then s else s @ [x])"

definition new_Set :: "'a list \<Rightarrow> 'a list" where
  "new_Set xs = foldl Set_add [] xs"

definition classList :: "attrs \<Rightarrow> string list" where
  "classList a =
     (case map_of a ''class'' of None \<Rightarrow> [] | Some v \<Rightarrow> new_Set (split_tokens [] v))"

fun matches :: "selector \<Rightarrow> nat \<times> string \<times> attrs \<Rightarrow> bool" where
  "matches (Tag t) (i, t', a) = (t' = t)"
| "matches (Class c) (i, t', a) = (c \<in> set (classList a))"
| "matches (Id x) (i, t', a) = (map_of a ''id'' = Some x)"
| "matches (TagAttr t k) (i, t', a) = (t' = t \<and> map_of a k \<noteq> None)"

definition querySelectorAll :: "selector \<Rightarrow> page \<Rightarrow> (nat \<times> string \<times> attrs) list" where
  "querySelectorAll sel p = filter (matches sel) (elems (documentElement p))"

definition querySelector :: "selector \<Rightarrow> page \<Rightarrow> nat option" where
  "querySelector sel p =
     (case querySelectorAll sel p of [] \<Rightarrow> None | e # es \<Rightarrow> Some (fst e))"

text \<open>
  A URL-valued property (\<^verbatim>\<open>img.src\<close>, \<^verbatim>\<open>a.href\<close>) is the empty string when the
  attribute is absent and what the host makes of the attribute value otherwise;
  \<^verbatim>\<open>img.alt\<close> is the attribute value, or the empty string.
\<close>

definition url_prop :: "host \<Rightarrow> string \<Rightarrow> attrs \<Rightarrow> string" where
  "url_prop h k a = (case map_of a k of None \<Rightarrow> [] | Some v \<Rightarrow> resolveURL h v)"

definition string_prop :: "string \<Rightarrow> attrs \<Rightarrow> string" where
  "string_prop k a = (case map_of a k of None \<Rightarrow> [] | Some v \<Rightarrow> v)"

subsection \<open>Siblings and well-formed pages\<close>

text \<open>
  \<^verbatim>\<open>x.previousSibling\<close> for the element \<open>x\<close> with identity \<open>i\<close>: the node before it
  in the child list of its parent, \<open>None\<close> (\<^verbatim>\<open>null\<close>) when there is none.
\<close>

fun previous_in :: "nat \<Rightarrow> node list \<Rightarrow> node option" where
  "previous_in i (x # y # ys) = (if is_element i y then Some x else previous_in i (y # ys))"
| "previous_in i [x] = None"
| "previous_in i [] = None"

fun first_some :: "'a option list \<Rightarrow> 'a option" where
  "first_some [] = None"
| "first_some (None # xs) = first_some xs"
| "first_some (Some x # xs) = Some x"

fun previousSibling :: "nat \<Rightarrow> node \<Rightarrow> node option" where
  "previousSibling i (Element j t a cs) =
     (case previous_in i cs of
        Some x \<Rightarrow> Some x
      | None \<Rightarrow> first_some (map (previousSibling i) cs))"
| "previousSibling i (Text s) = None"

text \<open>
  \<open>precedes x i n\<close>: somewhere in \<open>n\<close> the node \<open>x\<close> stands immediately before the element
  with identity \<open>i\<close> in a child list.
\<close>

inductive precedes :: "node \<Rightarrow> nat \<Rightarrow> node \<Rightarrow> bool" where
  here: "is_element i v \<Longrightarrow> precedes x i (Element j t a (pre @ x # v # post))"
| below: "c \<in> set cs \<Longrightarrow> precedes x i c \<Longrightarrow> precedes x i (Element j t a cs)"

text \<open>
  A well-formed page: the root is the \<^verbatim>\<open>html\<close> element, no two elements share an
  identity, and the identities in use are below the one the next created element gets.
\<close>

definition well_formed :: "page \<Rightarrow> bool" where
  "well_formed p =
     (has_tag ''html'' (documentElement p) \<and>
      distinct (ids (documentElement p)) \<and>
      list_all (\<lambda>i. i < next_id p) (ids (documentElement p)))"

section \<open>\<^verbatim>\<open>generateDynamicSitemap\<close>\<close>

definition sitemap_cssText :: string where
  "sitemap_cssText = ''position:absolute;left:-9999px;width:1px;height:1px;overflow:hidden;''"

text \<open>One list entry; \<open>None\<close> when \<^verbatim>\<open>new URL(link)\<close> throws.\<close>

definition sitemap_entry :: "host \<Rightarrow> string \<Rightarrow> string option" where
  \<open>sitemap_entry h link =
     (case URL_pathname h link of
        None \<Rightarrow> None
      | Some path \<Rightarrow> Some (''<li><a href="'' @ link @ ''">'' @ path @ ''</a></li>''))\<close>

definition sitemap_innerHTML :: "string list \<Rightarrow> string" where
  "sitemap_innerHTML entries =
     ''\<newline>        <h2>Website Structure</h2>'' @
     ''\<newline>        <ul>'' @
     ''\<newline>            '' @ concat entries @
     ''\<newline>        </ul>'' @
     ''\<newline>    ''"

text \<open>
  The block for the given entries, when \<open>i\<close> is its identity: the elements of its content
  take the identities from \<open>Suc i\<close> on.
\<close>

definition sitemap :: "host \<Rightarrow> nat \<Rightarrow> string list \<Rightarrow> node" where
  "sitemap h i entries =
     Element i ''div'' [(''class'', ''hidden-sitemap''), (''style'', sitemap_cssText)]
       (fst (relabel_list (Suc i) (parseHTML h (sitemap_innerHTML entries))))"

definition anchor_hrefs :: "host \<Rightarrow> page \<Rightarrow> string list" where
  "anchor_hrefs h p =
     map (\<lambda>e. url_prop h ''href'' (snd (snd e))) (querySelectorAll (TagAttr ''a'' ''href'') p)"

definition generateDynamicSitemap :: "host \<Rightarrow> page \<Rightarrow> error + page" where
  "generateDynamicSitemap h p =
     (let links = anchor_hrefs h p;
          uniqueLinks = new_Set links;
          (i, p1) = createElement p
      in case those (map (sitemap_entry h) uniqueLinks) of
           None \<Rightarrow> Inl TypeError
         | Some entries \<Rightarrow>
             (let (children, p2) = innerHTML_nodes h (sitemap_innerHTML entries) p1
              in body_appendChild
                   (Element i ''div''
                      [(''class'', ''hidden-sitemap''), (''style'', sitemap_cssText)] children)
                   p2))"


section \<open>\<^verbatim>\<open>sendIndexingSignals\<close>\<close>

text \<open>
  \<^verbatim>\<open>encodeURIComponent\<close> on a byte string: letters, digits and \<^verbatim>\<open>-_.!~*'()\<close> stay, every
  other byte becomes \<^verbatim>\<open>%XX\<close>.
\<close>

definition uri_unreserved :: "char \<Rightarrow> bool" where
  "uri_unreserved c =
     (c \<in> set (''ABCDEFGHIJKLMNOPQRSTUVWXYZabcdefghijklmnopqrstuvwxyz0123456789-_.!~*()'' @
              [CHR 0x27]))"

definition hex_digit :: "nat \<Rightarrow> char" where
  "hex_digit n = ''0123456789ABCDEF'' ! (n mod 16)"

definition percent_encode :: "char \<Rightarrow> string" where
  "percent_encode c =
     [CHR ''%'', hex_digit ((of_char c :: nat) div 16), hex_digit ((of_char c :: nat) mod 16)]"

definition encodeURIComponent :: "string \<Rightarrow> string" where
  "encodeURIComponent s =
     concat (map (\<lambda>c. if uri_unreserved c then [c] else percent_encode c) s)"

definition pingUrl :: "host \<Rightarrow> string" where
  "pingUrl h =
     ''https://www.google.com/ping?sitemap='' @ encodeURIComponent (origin h @ ''/sitemap.xml'')"

definition sendBeacon :: "string \<Rightarrow> page \<Rightarrow> page" where
  "sendBeacon url p = p\<lparr>beacons := beacons p @ [url]\<rparr>"

definition sendIndexingSignals :: "host \<Rightarrow> page \<Rightarrow> error + page" where
  "sendIndexingSignals h p =
     (let p1 = (if has_sendBeacon h then sendBeacon (pingUrl h) p else p)
      in case documentElement p1 of
           Element i t a cs \<Rightarrow>
             Inr (p1\<lparr>documentElement := Element i t (setAttr ''data-seo-enhanced'' ''true'' a) cs\<rparr>)
         | _ \<Rightarrow> Inl TypeError)"

section \<open>\<^verbatim>\<open>addBotOnlyContent\<close>\<close>

definition botContent_cssText :: string where
  "botContent_cssText =
     ''position:absolute;left:-9999px;top:-9999px;height:1px;width:1px;overflow:hidden;''"

definition botContent_innerHTML :: "string \<Rightarrow> string" where
  \<open>botContent_innerHTML ttl =
     ''\<newline>        <h2>Mansoor Ahmad SEO Services</h2>'' @
     ''\<newline>        <p>Professional SEO services including:</p>'' @
     ''\<newline>        <ul>'' @
     ''\<newline>            <li>Keyword research for "'' @ ttl @ ''"</li>'' @
     ''\<newline>            <li>On-page optimization techniques</li>'' @
     ''\<newline>            <li>Technical SEO audits</li>'' @
     ''\<newline>            <li>Off-page link building strategies</li>'' @
     ''\<newline>            <li>Local SEO for Pakistani businesses</li>'' @
     ''\<newline>        </ul>'' @
     ''\<newline>        <p>Contact Mansoor Ahmad for top-ranking SEO solutions in Pakistan.</p>'' @
     ''\<newline>    ''\<close>

definition addBotOnlyContent :: "host \<Rightarrow> page \<Rightarrow> error + page" where
  "addBotOnlyContent h p =
     (let (i, p1) = createElement p;
          (children, p2) = innerHTML_nodes h (botContent_innerHTML (title p1)) p1
      in body_appendChild
           (Element i ''div''
              [(''class'', ''bot-only-content''), (''style'', botContent_cssText)] children)
           p2)"

text \<open>
  The block for the given title, when \<open>i\<close> is its identity: the elements of its content
  take the identities from \<open>Suc i\<close> on, and \<open>botContent_end\<close> is the first identity behind
  them. \<open>strip_ids\<close> forgets the identities in a subtree, so that two subtrees are equal
  after it when they differ in nothing but the identities.
\<close>

definition botContent :: "host \<Rightarrow> nat \<Rightarrow> string \<Rightarrow> node" where
  "botContent h i ttl =
     Element i ''div'' [(''class'', ''bot-only-content''), (''style'', botContent_cssText)]
       (fst (relabel_list (Suc i) (parseHTML h (botContent_innerHTML ttl))))"

definition botContent_end :: "host \<Rightarrow> nat \<Rightarrow> string \<Rightarrow> nat" where
  "botContent_end h i ttl = snd (relabel_list (Suc i) (parseHTML h (botContent_innerHTML ttl)))"

fun strip_ids :: "node \<Rightarrow> node" where
  "strip_ids (Text s) = Text s"
| "strip_ids (Element i t a cs) = Element 0 t a (map strip_ids cs)"

section \<open>\<^verbatim>\<open>enhanceSemanticStructure\<close>\<close>

fun node_matches :: "selector \<Rightarrow> node \<Rightarrow> bool" where
  "node_matches sel (Element i t a cs) = matches sel (i, t, a)"
| "node_matches sel (Text s) = False"

text \<open>\<^verbatim>\<open>item.querySelector(sel)\<close>: the first descendant of \<open>item\<close> that matches.\<close>

fun element_querySelector :: "selector \<Rightarrow> node \<Rightarrow> node option" where
  "element_querySelector sel (Element i t a cs) = find (node_matches sel) (concat (map nodes cs))"
| "element_querySelector sel (Text s) = None"

text \<open>
  The body of the \<^verbatim>\<open>forEach\<close> over the portfolio items. Reading \<^verbatim>\<open>textContent\<close> of the
  \<^verbatim>\<open>null\<close> that \<^verbatim>\<open>item.querySelector('h3')\<close> returns for an item without a heading is a
  \<^verbatim>\<open>TypeError\<close>. An identity that comes from a query result is always found in the tree;
  the branch for an identity that is not found, here and in the loop over the images,
  leaves the page as it is.
\<close>

definition enhance_item :: "nat \<Rightarrow> page \<Rightarrow> error + page" where
  "enhance_item i p =
     (let p1 = setAttribute i ''itemscope'' [] p;
          p2 = setAttribute i ''itemtype'' ''https://schema.org/CreativeWork'' p1
      in case getElement i (documentElement p2) of
           None \<Rightarrow> Inr p2
         | Some item \<Rightarrow>
             (case element_querySelector (Tag ''h3'') item of
                None \<Rightarrow> Inl TypeError
              | Some h3 \<Rightarrow>
                  Inr (setAttribute i ''aria-label''
                         (''Portfolio project: '' @ textContent h3) p2)))"

definition enhanceSemanticStructure :: "page \<Rightarrow> error + page" where
  "enhanceSemanticStructure p =
     (case querySelector (Tag ''main'') p of
        None \<Rightarrow> Inl TypeError
      | Some m \<Rightarrow>
          let p1 = setAttribute m ''role'' ''main'' p
          in (case querySelector (Tag ''nav'') p1 of
                None \<Rightarrow> Inl TypeError
              | Some n \<Rightarrow>
                  let p2 = setAttribute n ''itemscope'' [] p1
                  in (case querySelector (Tag ''nav'') p2 of
                        None \<Rightarrow> Inl TypeError
                      | Some n' \<Rightarrow>
                          let p3 = setAttribute n' ''itemtype''
                                     ''https://schema.org/SiteNavigationElement'' p2
                          in forEach enhance_item
                               (map fst (querySelectorAll (Class ''portfolio-item'') p3)) p3)))"

section \<open>\<^verbatim>\<open>optimizeMediaLoading\<close>\<close>

text \<open>A property value is falsy when it is \<^verbatim>\<open>undefined\<close> or the empty string.\<close>

definition truthy :: "string option \<Rightarrow> bool" where
  "truthy v = (case v of None \<Rightarrow> False | Some s \<Rightarrow> s \<noteq> [])"

text \<open>
  \<^verbatim>\<open>img.loading\<close>, read in line 64. Where the DOM implements the property, it reflects
  the content attribute \<^verbatim>\<open>loading\<close> limited to its two known values: \<^verbatim>\<open>lazy\<close> when the
  attribute is that word in any letter case, \<^verbatim>\<open>eager\<close> otherwise, also for an image
  without the attribute. Where the DOM does not implement it, reading it gives
  \<^verbatim>\<open>undefined\<close> whatever the attributes are.
\<close>

definition ascii_lower :: "char \<Rightarrow> char" where
  "ascii_lower c =
     (case map_of (zip ''ABCDEFGHIJKLMNOPQRSTUVWXYZ'' ''abcdefghijklmnopqrstuvwxyz'') c of
        None \<Rightarrow> c
      | Some l \<Rightarrow> l)"

definition img_loading :: "host \<Rightarrow> attrs \<Rightarrow> string option" where
  "img_loading h a =
     (if has_loading h
      then Some (if map ascii_lower (string_prop ''loading'' a) = ''lazy''
                 then ''lazy'' else ''eager'')
      else None)"

fun join :: "string \<Rightarrow> string list \<Rightarrow> string" where
  "join sep [] = []"
| "join sep [x] = x"
| "join sep (x # y # ys) = x @ sep @ join sep (y # ys)"

text \<open>
  \<^verbatim>\<open>classList.add(tok)\<close>: the token joins the ordered set and the \<^verbatim>\<open>class\<close> attribute
  is written back as the tokens separated by single spaces.
\<close>

definition classList_add :: "string \<Rightarrow> attrs \<Rightarrow> attrs" where
  "classList_add tok a = setAttr ''class'' (join '' '' (Set_add (classList a) tok)) a"

definition update_element :: "nat \<Rightarrow> (attrs \<Rightarrow> attrs) \<Rightarrow> page \<Rightarrow> page" where
  "update_element i f p = p\<lparr>documentElement := modify i f (documentElement p)\<rparr>"

text \<open>
  \<^verbatim>\<open>img.parentNode.insertBefore(new, img)\<close>. The parent of the root element is the
  document, which refuses a second element child.
\<close>

definition parentNode_insertBefore :: "nat \<Rightarrow> node \<Rightarrow> page \<Rightarrow> error + page" where
  "parentNode_insertBefore i new p =
     (if is_element i (documentElement p) then Inl HierarchyRequestError
      else Inr (p\<lparr>documentElement := insertBefore i new (documentElement p)\<rparr>))"

definition noscript_fallback :: "nat \<Rightarrow> nat \<Rightarrow> string \<Rightarrow> string \<Rightarrow> node" where
  "noscript_fallback n f originalSrc alt =
     Element n ''noscript'' [] [Element f ''img'' [(''src'', originalSrc), (''alt'', alt)] []]"

text \<open>The body of the \<^verbatim>\<open>forEach\<close> over the images, for the image with identity \<open>i\<close>.\<close>

definition lazyload_img :: "host \<Rightarrow> nat \<Rightarrow> page \<Rightarrow> error + page" where
  "lazyload_img h i p =
     (case getAttrs i (documentElement p) of
        None \<Rightarrow> Inr p
      | Some a \<Rightarrow>
          if truthy (img_loading h a) then Inr p
          else
            let originalSrc = url_prop h ''src'' a;
                p1 = update_element i (setAttr ''data-src'' originalSrc) p;
                p2 = update_element i (removeAttr ''src'') p1;
                p3 = update_element i (classList_add ''lazyload'') p2;
                (n, p4) = createElement p3;
                (f, p5) = createElement p4;
                alt = (case getAttrs i (documentElement p5) of
                         None \<Rightarrow> [] | Some a' \<Rightarrow> string_prop ''alt'' a')
            in parentNode_insertBefore i
                 (noscript_fallback n f originalSrc (if alt = [] then ''Portfolio image'' else alt))
                 p5)"

definition optimizeMediaLoading :: "host \<Rightarrow> page \<Rightarrow> error + page" where
  "optimizeMediaLoading h p =
     forEach (lazyload_img h) (map fst (querySelectorAll (Tag ''img'') p)) p"

text \<open>
  What one round of the loop leaves behind, for an image whose attributes were \<open>a\<close>: its new
  attributes, and the fallback inserted before it when \<open>n\<close> was the next free identity.
\<close>

definition lazy_attrs :: "host \<Rightarrow> attrs \<Rightarrow> attrs \<Rightarrow> attrs" where
  "lazy_attrs h a =
     classList_add ''lazyload'' \<circ> removeAttr ''src'' \<circ> setAttr ''data-src'' (url_prop h ''src'' a)"

definition fallback_for :: "host \<Rightarrow> nat \<Rightarrow> attrs \<Rightarrow> node" where
  "fallback_for h n a =
     noscript_fallback n (Suc n) (url_prop h ''src'' a)
       (if string_prop ''alt'' a = [] then ''Portfolio image'' else string_prop ''alt'' a)"

section \<open>\<^verbatim>\<open>ContentPrioritizer\<close>\<close>

definition importantSections :: "selector list" where
  "importantSections = [Id ''about'', Id ''portfolio'', Id ''services'', Id ''testimonials'']"

definition addPriorityTag :: "selector \<Rightarrow> page \<Rightarrow> page" where
  "addPriorityTag sel p =
     (case querySelector sel p of
        None \<Rightarrow> p
      | Some s \<Rightarrow>
          setAttribute s ''aria-live'' ''polite'' (setAttribute s ''data-seo-priority'' ''high'' p))"

definition addPriorityTags :: "page \<Rightarrow> page" where
  "addPriorityTags p = foldl (\<lambda>q sel. addPriorityTag sel q) p importantSections"

section \<open>\<^verbatim>\<open>analyzeKeywordDensity\<close>\<close>

text \<open>
  \<^verbatim>\<open>content = document.body.textContent.toLowerCase()\<close>. On a string of ASCII
  characters \<^verbatim>\<open>toLowerCase\<close> replaces the 26 capital letters and nothing else; for a
  string with a character outside ASCII the result comes from the Unicode tables of the
  host, which also turn some characters outside ASCII into ASCII letters (the Kelvin sign
  becomes \<^verbatim>\<open>k\<close>).
\<close>

definition is_ascii :: "string \<Rightarrow> bool" where
  "is_ascii s = list_all (\<lambda>c. (of_char c :: nat) < 128) s"

definition toLowerCase :: "host \<Rightarrow> string \<Rightarrow> string" where
  "toLowerCase h s = (if is_ascii s then map ascii_lower s else toLowerCase_unicode h s)"

text \<open>
  The six keywords hold small letters and spaces only, so \<^verbatim>\<open>new RegExp(keyword, 'gi')\<close>
  is the keyword itself as a pattern. With the flag \<^verbatim>\<open>i\<close> a character of the text matches
  a character of the pattern when the two are equal after \<open>Canonicalize\<close>, which puts a
  character into upper case, except that a character outside ASCII never becomes an
  ASCII one; so an ASCII letter of the pattern matches that letter in its two cases
  and nothing else. \<^verbatim>\<open>content.match\<close> with the flag \<^verbatim>\<open>g\<close> scans from the left and resumes
  behind each match; the count is the number of matches, \<open>0\<close> for the \<^verbatim>\<open>null\<close> of no
  match. \<open>match_count\<close> is this scan for a pattern that is a keyword of at least one
  character.
\<close>

definition Canonicalize :: "char \<Rightarrow> char" where
  "Canonicalize c =
     (case map_of (zip ''abcdefghijklmnopqrstuvwxyz'' ''ABCDEFGHIJKLMNOPQRSTUVWXYZ'') c of
        None \<Rightarrow> c
      | Some u \<Rightarrow> u)"

definition keyword_list :: "string list" where
  "keyword_list =
     [''mansoor ahmad'', ''seo specialist'', ''portfolio'', ''keyword research'',
      ''technical seo'', ''pakistan seo expert'']"

definition matches_here :: "string \<Rightarrow> string \<Rightarrow> bool" where
  "matches_here kw s = (map Canonicalize (take (length kw) s) = map Canonicalize kw)"

fun match_count :: "string \<Rightarrow> string \<Rightarrow> nat" where
  "match_count kw [] = 0"
| "match_count kw (c # cs) =
     (if matches_here kw (c # cs) then Suc (match_count kw (drop (length kw - 1) cs))
      else match_count kw cs)"

definition densityReport :: "string \<Rightarrow> (string \<times> nat) list" where
  "densityReport content =
     foldl (\<lambda>report keyword. AList.update keyword (match_count keyword content) report)
       [] keyword_list"

definition analyzeKeywordDensity :: "host \<Rightarrow> page \<Rightarrow> error + (string \<times> nat) list" where
  "analyzeKeywordDensity h p =
     (case body p of
        None \<Rightarrow> Inl TypeError
      | Some b \<Rightarrow> Inr (densityReport (toLowerCase h (textContent b))))"

text \<open>
  For the statement of the keyword count: the places of a text at which a keyword stands,
  the case of the ASCII letters ignored.
\<close>

definition occurrences :: "string \<Rightarrow> string \<Rightarrow> nat list" where
  "occurrences kw text =
     filter (\<lambda>i. map Canonicalize (take (length kw) (drop i text)) = map Canonicalize kw)
       [0..<length text]"

text \<open>
  A keyword is free of borders when no proper prefix of it is also a suffix: two
  occurrences of such a keyword cannot overlap.
\<close>

definition border_free :: "string \<Rightarrow> bool" where
  "border_free k = list_all (\<lambda>d. drop d k \<noteq> take (length k - d) k) [1..<length k]"

text \<open>
  The visible text in the words of the specification, for comparison with
  \<^verbatim>\<open>textContent\<close>: the text of a node without the content of \<^verbatim>\<open>script\<close> and \<^verbatim>\<open>style\<close>
  elements, which a page does not show. \<open>count_of\<close> reads the entry of a keyword out of
  the outcome of the analysis.
\<close>

fun spec_visible_text :: "node \<Rightarrow> string" where
  "spec_visible_text (Text s) = s"
| "spec_visible_text (Element i t a cs) =
     (if t = ''script'' \<or> t = ''style'' then [] else concat (map spec_visible_text cs))"

definition count_of :: "string \<Rightarrow> error + (string \<times> nat) list \<Rightarrow> nat option" where
  "count_of kw r = (case r of Inl e \<Rightarrow> None | Inr report \<Rightarrow> map_of report kw)"

section \<open>Structured data\<close>

datatype json = JString string | JNumber nat | JArray "json list" | JObject "(string \<times> json) list"

definition digit_char :: "nat \<Rightarrow> char" where
  "digit_char n = ''0123456789'' ! (n mod 10)"

fun show_nat :: "nat \<Rightarrow> string" where
  "show_nat n = (if n < 10 then [digit_char n] else show_nat (n div 10) @ [digit_char n])"

declare show_nat.simps [simp del]

definition hex_digit_lower :: "nat \<Rightarrow> char" where
  "hex_digit_lower n = ''0123456789abcdef'' ! (n mod 16)"

definition json_escape :: "char \<Rightarrow> string" where
  "json_escape c =
     (if c = CHR 0x22 then [CHR 0x5C, CHR 0x22]
      else if c = CHR 0x5C then [CHR 0x5C, CHR 0x5C]
      else if c = CHR 0x08 then [CHR 0x5C, CHR ''b'']
      else if c = CHR 0x0C then [CHR 0x5C, CHR ''f'']
      else if c = CHR 0x0A then [CHR 0x5C, CHR ''n'']
      else if c = CHR 0x0D then [CHR 0x5C, CHR ''r'']
      else if c = CHR 0x09 then [CHR 0x5C, CHR ''t'']
      else if (of_char c :: nat) < 32
        then [CHR 0x5C, CHR ''u'', CHR ''0'', CHR ''0'',
              hex_digit_lower ((of_char c :: nat) div 16), hex_digit_lower (of_char c)]
      else [c])"

definition quote :: "string \<Rightarrow> string" where
  "quote s = [CHR 0x22] @ concat (map json_escape s) @ [CHR 0x22]"

fun JSON_stringify :: "json \<Rightarrow> string" where
  "JSON_stringify (JString s) = quote s"
| "JSON_stringify (JNumber n) = show_nat n"
| "JSON_stringify (JArray xs) = ''['' @ join '','' (map JSON_stringify xs) @ '']''"
| "JSON_stringify (JObject kvs) =
     ''{'' @ join '','' (map (\<lambda>kv. quote (fst kv) @ '':'' @ JSON_stringify (snd kv)) kvs) @ ''}''"

fun member :: "string \<Rightarrow> json \<Rightarrow> json option" where
  "member k (JObject kvs) = map_of kvs k"
| "member k (JString s) = None"
| "member k (JNumber n) = None"
| "member k (JArray xs) = None"

definition personSchema :: json where
  "personSchema =
     JObject
       [(''@context'', JString ''https://schema.org''),
        (''@type'', JString ''Person''),
        (''name'', JString ''Mansoor Ahmad''),
        (''image'', JString ''https://yourportfolio.com/images/photo.jpg''),
        (''jobTitle'', JString ''SEO Specialist''),
        (''description'',
           JString ''I help businesses rank higher on Google with proven SEO strategies.''),
        (''url'', JString ''https://yourportfolio.com''),
        (''sameAs'',
           JArray [JString ''https://linkedin.com/in/yourprofile'',
                   JString ''https://github.com/yourusername'']),
        (''address'',
           JObject
             [(''@type'', JString ''PostalAddress''),
              (''addressLocality'', JString ''Lahore''),
              (''addressRegion'', JString ''Punjab''),
              (''addressCountry'', JString ''Pakistan'')])]"

definition breadcrumbs :: "(string \<times> string) list" where
  "breadcrumbs =
     [(''Home'', ''https://yourportfolio.com/''),
      (''Portfolio'', ''https://yourportfolio.com/portfolio''),
      (''SEO Services'', ''https://yourportfolio.com/seo'')]"

definition breadcrumbSchema :: json where
  "breadcrumbSchema =
     JObject
       [(''@context'', JString ''https://schema.org''),
        (''@type'', JString ''BreadcrumbList''),
        (''itemListElement'',
           JArray (map (\<lambda>x. JObject
                          [(''@type'', JString ''ListItem''),
                           (''position'', JNumber (fst x + 1)),
                           (''name'', JString (fst (snd x))),
                           (''item'', JString (snd (snd x)))])
                     (enumerate 0 breadcrumbs)))]"

definition faqs :: "(string \<times> string) list" where
  "faqs =
     [(''What SEO services do you offer?'',
       ''I provide keyword research, on-page SEO, technical SEO, and link building.''),
      (''How long does SEO take to show results?'',
       ''Typically 3-6 months for noticeable improvements.'')]"

definition faqSchema :: json where
  "faqSchema =
     JObject
       [(''@context'', JString ''https://schema.org''),
        (''@type'', JString ''FAQPage''),
        (''mainEntity'',
           JArray (map (\<lambda>faq. JObject
                          [(''@type'', JString ''Question''),
                           (''name'', JString (fst faq)),
                           (''acceptedAnswer'',
                              JObject [(''@type'', JString ''Answer''),
                                       (''text'', JString (snd faq))])])
                     faqs))]"

text \<open>
  The \<^verbatim>\<open>script\<close> element each generator builds: its type attribute and, as its text,
  the serialised record.
\<close>

definition ld_json_script :: "nat \<Rightarrow> json \<Rightarrow> node" where
  "ld_json_script i schema =
     Element i ''script'' [(''type'', ''application/ld+json'')] [Text (JSON_stringify schema)]"

definition generateSchema :: "json \<Rightarrow> page \<Rightarrow> error + page" where
  "generateSchema schema p =
     (let (i, p1) = createElement p in head_appendChild (ld_json_script i schema) p1)"

definition generatePersonSchema :: "page \<Rightarrow> error + page" where
  "generatePersonSchema p = generateSchema personSchema p"

definition generateBreadcrumbSchema :: "page \<Rightarrow> error + page" where
  "generateBreadcrumbSchema p = generateSchema breadcrumbSchema p"

definition generateFAQSchema :: "page \<Rightarrow> error + page" where
  "generateFAQSchema p = generateSchema faqSchema p"

section \<open>The script as a whole\<close>

text \<open>
  The calls of the listener the script registers for \<^verbatim>\<open>DOMContentLoaded\<close> (lines 6 to
  21), and the statements at the top level of the script in the order in which they stand
  (the registration itself, then lines 158 to 248); the call of \<^verbatim>\<open>analyzeKeywordDensity\<close>
  and the \<^verbatim>\<open>console.log\<close> of its result are the one statement \<open>KeywordReport\<close>. An
  exception ends the sequence it is thrown in. \<open>run\<close> returns the calls that returned
  normally, and the outcome.
\<close>

datatype call =
    EnhanceSemanticStructure | AddBotOnlyContent | OptimizeMediaLoading
  | GenerateDynamicSitemap | SendIndexingSignals
  | AddEventListener | NewContentPrioritizer | KeywordReport
  | GeneratePersonSchema | GenerateBreadcrumbSchema | GenerateFAQSchema

fun perform :: "host \<Rightarrow> call \<Rightarrow> page \<Rightarrow> error + page" where
  "perform h EnhanceSemanticStructure p = enhanceSemanticStructure p"
| "perform h AddBotOnlyContent p = addBotOnlyContent h p"
| "perform h OptimizeMediaLoading p = optimizeMediaLoading h p"
| "perform h GenerateDynamicSitemap p = generateDynamicSitemap h p"
| "perform h SendIndexingSignals p = sendIndexingSignals h p"
| "perform h AddEventListener p = Inr (p\<lparr>listeners := Suc (listeners p)\<rparr>)"
| "perform h NewContentPrioritizer p = Inr (addPriorityTags p)"
| "perform h KeywordReport p =
     (case analyzeKeywordDensity h p of
        Inl e \<Rightarrow> Inl e
      | Inr keywordReport \<Rightarrow> Inr (p\<lparr>console := console p @ [keywordReport]\<rparr>))"
| "perform h GeneratePersonSchema p = generatePersonSchema p"
| "perform h GenerateBreadcrumbSchema p = generateBreadcrumbSchema p"
| "perform h GenerateFAQSchema p = generateFAQSchema p"

fun run :: "host \<Rightarrow> call list \<Rightarrow> page \<Rightarrow> call list \<times> (error + page)" where
  "run h [] p = ([], Inr p)"
| "run h (c # cs) p =
     (case perform h c p of
        Inl e \<Rightarrow> ([], Inl e)
      | Inr p' \<Rightarrow> (case run h cs p' of (done, r) \<Rightarrow> (c # done, r)))"

definition DOMContentLoaded_listener :: "call list" where
  "DOMContentLoaded_listener =
     [EnhanceSemanticStructure, AddBotOnlyContent, OptimizeMediaLoading,
      GenerateDynamicSitemap, SendIndexingSignals]"

definition script :: "call list" where
  "script =
     [AddEventListener, NewContentPrioritizer, KeywordReport,
      GeneratePersonSchema, GenerateBreadcrumbSchema, GenerateFAQSchema]"

subsection \<open>Notions used in the proofs\<close>

text \<open>
  The identities in a list of sibling nodes; a class token as \<^verbatim>\<open>classList\<close> yields it, not
  empty and free of whitespace; and the images of a page in document order, the list the
  loop of \<^verbatim>\<open>optimizeMediaLoading\<close> runs over.
\<close>

abbreviation idsF :: "node list \<Rightarrow> nat list" where
  "idsF cs \<equiv> concat (map ids cs)"

definition good_token :: "string \<Rightarrow> bool" where
  "good_token t = (t \<noteq> [] \<and> (\<forall>c\<in>set t. \<not> is_space c))"

definition img_ids :: "page \<Rightarrow> nat list" where
  "img_ids p = map fst (querySelectorAll (Tag ''img'') p)"

section \<open>A sample page and host\<close>

text \<open>
  A small portfolio page, used to run the script's functions on a concrete input, and a
  host described on the handful of strings the sample pages use.
\<close>

definition sample_body :: "node list" where
  "sample_body =
     [Element 4 ''nav'' []
        [Element 5 ''a'' [(''href'', ''/about'')] [Text ''About''],
         Element 6 ''a'' [(''href'', ''/work'')] [Text ''Work''],
         Element 7 ''a'' [(''href'', ''/about'')] [Text ''Me'']],
      Element 8 ''main'' []
        [Element 9 ''section'' [(''id'', ''about'')] [Text ''Mansoor Ahmad, SEO Specialist''],
         Element 10 ''div'' [(''class'', ''portfolio-item'')]
           [Element 11 ''h3'' [] [Text ''Site audit''],
            Element 12 ''img'' [(''src'', ''/a.jpg''), (''loading'', ''lazy'')] [],
            Element 13 ''img'' [(''src'', ''/b.jpg'')] []]]]"

definition sample_page :: page where
  "sample_page =
     \<lparr>documentElement =
        Element 0 ''html'' []
          [Element 1 ''head'' [] [Element 2 ''title'' [] [Text ''Portfolio'']],
           Element 3 ''body'' [] sample_body],
      title = ''Portfolio'', next_id = 14, beacons = [], console = [], listeners = 0\<rparr>"

definition sample_URLs :: "(string \<times> string) list" where
  "sample_URLs =
     [(''https://example.com/about'', ''/about''),
      (''https://example.com/work'', ''/work'')]"

text \<open>
  What the parser makes of the pieces of markup the script writes on the sample pages:
  the hidden block for the title \<^verbatim>\<open>Portfolio\<close>, the sitemap for the two addresses of
  the navigation, and the sitemap of a page without anchors. The line breaks and the
  indentation of the template literals are text nodes.
\<close>

definition sample_fragments :: "(string \<times> node list) list" where
  \<open>sample_fragments =
     [(botContent_innerHTML ''Portfolio'',
       [Text ''\<newline>        '',
        Element 0 ''h2'' [] [Text ''Mansoor Ahmad SEO Services''],
        Text ''\<newline>        '',
        Element 0 ''p'' [] [Text ''Professional SEO services including:''],
        Text ''\<newline>        '',
        Element 0 ''ul'' []
          [Text ''\<newline>            '',
           Element 0 ''li'' [] [Text ''Keyword research for "Portfolio"''],
           Text ''\<newline>            '',
           Element 0 ''li'' [] [Text ''On-page optimization techniques''],
           Text ''\<newline>            '',
           Element 0 ''li'' [] [Text ''Technical SEO audits''],
           Text ''\<newline>            '',
           Element 0 ''li'' [] [Text ''Off-page link building strategies''],
           Text ''\<newline>            '',
           Element 0 ''li'' [] [Text ''Local SEO for Pakistani businesses''],
           Text ''\<newline>        ''],
        Text ''\<newline>        '',
        Element 0 ''p'' []
          [Text ''Contact Mansoor Ahmad for top-ranking SEO solutions in Pakistan.''],
        Text ''\<newline>    '']),
      (sitemap_innerHTML
         [''<li><a href="https://example.com/about">/about</a></li>'',
          ''<li><a href="https://example.com/work">/work</a></li>''],
       [Text ''\<newline>        '',
        Element 0 ''h2'' [] [Text ''Website Structure''],
        Text ''\<newline>        '',
        Element 0 ''ul'' []
          [Text ''\<newline>            '',
           Element 0 ''li'' []
             [Element 0 ''a'' [(''href'', ''https://example.com/about'')] [Text ''/about'']],
           Element 0 ''li'' []
             [Element 0 ''a'' [(''href'', ''https://example.com/work'')] [Text ''/work'']],
           Text ''\<newline>        ''],
        Text ''\<newline>    '']),
      (sitemap_innerHTML [],
       [Text ''\<newline>        '',
        Element 0 ''h2'' [] [Text ''Website Structure''],
        Text ''\<newline>        '',
        Element 0 ''ul'' [] [Text ''\<newline>            \<newline>        ''],
        Text ''\<newline>    ''])]\<close>

text \<open>The Kelvin sign, U+212A, in UTF-8, and the one string with it that is used below.\<close>

definition kelvin_sign :: string where
  "kelvin_sign = [CHR 0xE2, CHR 0x84, CHR 0xAA]"

definition sample_lower_case :: "(string \<times> string) list" where
  "sample_lower_case = [(kelvin_sign @ ''eyword research'', ''keyword research'')]"

text \<open>
  The sample host is a current browser: it has \<^verbatim>\<open>navigator.sendBeacon\<close> and the
  \<^verbatim>\<open>loading\<close> property of images. \<open>legacy_host\<close> is a DOM that does not implement that
  property, as the browsers before native lazy loading and as jsdom.
\<close>

definition sample_host :: host where
  "sample_host =
     \<lparr>has_sendBeacon = True,
      origin = ''https://example.com'',
      URL_pathname = map_of sample_URLs,
      resolveURL = (\<lambda>v. if v \<noteq> [] \<and> hd v = CHR ''/'' then ''https://example.com'' @ v else v),
      has_loading = True,
      parseHTML = (\<lambda>m. case map_of sample_fragments m of None \<Rightarrow> [] | Some ns \<Rightarrow> ns),
      toLowerCase_unicode = (\<lambda>s. case map_of sample_lower_case s of None \<Rightarrow> s | Some l \<Rightarrow> l)\<rparr>"

definition legacy_host :: host where
  "legacy_host = sample_host\<lparr>has_loading := False\<rparr>"

text \<open>A page whose body holds one anchor for each of the given \<^verbatim>\<open>href\<close> values.\<close>

definition link_page :: "string list \<Rightarrow> page" where
  "link_page hrefs =
     \<lparr>documentElement =
        Element 0 ''html'' []
          [Element 1 ''head'' [] [],
           Element 2 ''body'' []
             (map (\<lambda>kv. Element (3 + fst kv) ''a'' [(''href'', snd kv)] []) (enumerate 0 hrefs))],
      title = ''Links'', next_id = 3 + length hrefs, beacons = [], console = [], listeners = 0\<rparr>"

text \<open>A page with an empty head and the given nodes in its body.\<close>

definition body_page :: "node list \<Rightarrow> page" where
  "body_page cs =
     \<lparr>documentElement =
        Element 0 ''html'' [] [Element 1 ''head'' [] [], Element 2 ''body'' [] cs],
      title = ''Portfolio'', next_id = 100, beacons = [], console = [], listeners = 0\<rparr>"

text \<open>A body with a paragraph and an inline script.\<close>

definition script_body :: "node list" where
  \<open>script_body =
     [Element 3 ''p'' [] [Text ''Case studies''],
      Element 4 ''script'' [] [Text ''go("portfolio")'']]\<close>

section \<open>Properties\<close>

lemma find_append_in_first:
  "find P cs = Some (Element i t a ks) \<Longrightarrow>
   (\<And>k. P (Element i t a k)) \<Longrightarrow>
   find P (append_in_first P new cs) = Some (Element i t a (ks @ [new]))"
  by (induction cs) (auto split: if_splits)

lemma html_child_appendChild_Some:
  assumes "html_child P p = Some (Element i t a ks)" and "\<And>k. P (Element i t a k)"
  shows "\<exists>p'. html_child_appendChild P new p = Inr p' \<and>
           html_child P p' = Some (Element i t a (ks @ [new])) \<and>
           title p' = title p \<and> next_id p' = next_id p \<and> beacons p' = beacons p \<and>
           console p' = console p \<and> listeners p' = listeners p"
proof (cases "documentElement p")
  case (Element j u b cs)
  with assms(1) have html: "u = ''html''" and f: "find P cs = Some (Element i t a ks)"
    by (auto simp: html_child_def split: if_splits)
  from find_append_in_first [OF f assms(2)] Element html assms(1) show ?thesis
    by (simp add: html_child_appendChild_def html_child_def)
qed (use assms(1) in \<open>simp_all add: html_child_def\<close>)

lemma find_SomeD: "find P xs = Some x \<Longrightarrow> P x"
  by (induction xs) (auto split: if_splits)

lemma body_appendChild_Some:
  assumes "body p = Some (Element i t a ks)"
  shows "\<exists>p'. body_appendChild new p = Inr p' \<and>
           body p' = Some (Element i t a (ks @ [new])) \<and>
           title p' = title p \<and> next_id p' = next_id p \<and> beacons p' = beacons p \<and>
           console p' = console p \<and> listeners p' = listeners p"
proof -
  from assms have "is_body (Element i t a ks)"
    unfolding body_def html_child_def
    by (auto split: node.splits if_splits dest: find_SomeD)
  then have "\<And>k. is_body (Element i t a k)" by (simp add: is_body_def)
  with assms show ?thesis
    unfolding body_def body_appendChild_def by (rule html_child_appendChild_Some)
qed

lemma body_createElement [simp]: "body (snd (createElement p)) = body p"
  by (simp add: createElement_def body_def html_child_def)

lemma body_next_id [simp]: "body (p\<lparr>next_id := n\<rparr>) = body p"
  by (simp add: body_def html_child_def)

lemma strip_ids_relabel:
  "strip_ids (fst (relabel n c)) = strip_ids c"
  "map strip_ids (fst (relabel_list n cs)) = map strip_ids cs"
proof (induction n c and n cs rule: relabel_relabel_list.induct)
  case (4 n c cs)
  from "4.IH"(1) "4.IH"(2) [OF prod.collapse] show ?case
    by (simp add: case_prod_beta)
qed (simp_all add: case_prod_beta)

lemma relabel_le:
  "n \<le> snd (relabel n c)"
  "n \<le> snd (relabel_list n cs)"
proof (induction n c and n cs rule: relabel_relabel_list.induct)
  case (4 n c cs)
  from "4.IH"(1) "4.IH"(2) [OF prod.collapse] show ?case
    by (simp add: case_prod_beta)
qed (simp_all add: case_prod_beta)

lemma addBotOnlyContent_Some:
  assumes "body p = Some (Element b t a ks)"
  shows "\<exists>q. addBotOnlyContent h p = Inr q \<and>
           body q = Some (Element b t a (ks @ [botContent h (next_id p) (title p)])) \<and>
           title q = title p \<and> next_id q = botContent_end h (next_id p) (title p)"
proof -
  let ?p2 = "p\<lparr>next_id := botContent_end h (next_id p) (title p)\<rparr>"
  have "body ?p2 = Some (Element b t a ks)" using assms by simp
  from body_appendChild_Some [OF this, of "botContent h (next_id p) (title p)"]
  obtain q where "body_appendChild (botContent h (next_id p) (title p)) ?p2 = Inr q"
    and "body q = Some (Element b t a (ks @ [botContent h (next_id p) (title p)]))"
    and "title q = title ?p2" and "next_id q = next_id ?p2"
    by blast
  then show ?thesis
    by (simp add: addBotOnlyContent_def createElement_def innerHTML_nodes_def botContent_def
        botContent_end_def case_prod_beta)
qed

text \<open>
  Claim C7. The hidden-content injection is not idempotent: on every page that has a
  body, running \<^verbatim>\<open>addBotOnlyContent\<close> twice returns normally both times and leaves the
  body with exactly two more children than before, appended at its end: two hidden
  blocks with the same class and style, whose content the parser made of the same
  markup, so that they differ in the identities of their elements only. The second run
  does not look for the block of the first.
\<close>

theorem addBotOnlyContent_twice_duplicates:
  assumes "body p = Some (Element b t a ks)"
  shows "\<exists>p'. then_do (addBotOnlyContent h p) (addBotOnlyContent h) = Inr p' \<and>
           body p' = Some (Element b t a
             (ks @ [botContent h (next_id p) (title p),
                    botContent h (botContent_end h (next_id p) (title p)) (title p)])) \<and>
           next_id p < botContent_end h (next_id p) (title p) \<and>
           strip_ids (botContent h (next_id p) (title p)) =
             strip_ids (botContent h (botContent_end h (next_id p) (title p)) (title p))"
proof -
  let ?e = "botContent_end h (next_id p) (title p)"
  from addBotOnlyContent_Some [OF assms, of h]
  obtain q where first: "addBotOnlyContent h p = Inr q"
    and bq: "body q = Some (Element b t a (ks @ [botContent h (next_id p) (title p)]))"
    and tq: "title q = title p" and nq: "next_id q = ?e"
    by blast
  from addBotOnlyContent_Some [OF bq, of h]
  obtain r where second: "addBotOnlyContent h q = Inr r"
    and br: "body r = Some (Element b t a
       ((ks @ [botContent h (next_id p) (title p)]) @ [botContent h (next_id q) (title q)]))"
    by blast
  have less: "next_id p < ?e"
    using relabel_le(2) [of "Suc (next_id p)" "parseHTML h (botContent_innerHTML (title p))"]
    by (simp add: botContent_end_def)
  have same: "strip_ids (botContent h (next_id p) (title p)) =
      strip_ids (botContent h ?e (title p))"
    by (simp add: botContent_def strip_ids_relabel)
  show ?thesis using first second br tq nq less same by (simp add: then_do_def)
qed

theorem addBotOnlyContent_twice_witness:
  "body sample_page = Some (Element 3 ''body'' [] sample_body) \<and>
   (\<exists>p'. then_do (addBotOnlyContent sample_host sample_page) (addBotOnlyContent sample_host)
            = Inr p' \<and>
      body p' = Some (Element 3 ''body'' []
        (sample_body @ [botContent sample_host 14 ''Portfolio'',
                        botContent sample_host 24 ''Portfolio''])) \<and>
      strip_ids (botContent sample_host 14 ''Portfolio'') =
        strip_ids (botContent sample_host 24 ''Portfolio''))"
proof -
  have b: "body sample_page = Some (Element 3 ''body'' [] sample_body)"
    by (simp add: body_def html_child_def sample_page_def is_body_def)
  have e: "botContent_end sample_host 14 ''Portfolio'' = 24"
    by code_simp
  have n: "next_id sample_page = 14" "title sample_page = ''Portfolio''"
    by (simp_all add: sample_page_def)
  from addBotOnlyContent_twice_duplicates [OF b, of sample_host] b show ?thesis
    unfolding n e by blast
qed

text \<open>The first of the two blocks on the sample page, node by node.\<close>

lemma botContent_sample_page:
  \<open>botContent sample_host 14 ''Portfolio'' =
     Element 14 ''div''
       [(''class'', ''bot-only-content''),
        (''style'',
         ''position:absolute;left:-9999px;top:-9999px;height:1px;width:1px;overflow:hidden;'')]
       [Text ''\<newline>        '',
        Element 15 ''h2'' [] [Text ''Mansoor Ahmad SEO Services''],
        Text ''\<newline>        '',
        Element 16 ''p'' [] [Text ''Professional SEO services including:''],
        Text ''\<newline>        '',
        Element 17 ''ul'' []
          [Text ''\<newline>            '',
           Element 18 ''li'' [] [Text ''Keyword research for "Portfolio"''],
           Text ''\<newline>            '',
           Element 19 ''li'' [] [Text ''On-page optimization techniques''],
           Text ''\<newline>            '',
           Element 20 ''li'' [] [Text ''Technical SEO audits''],
           Text ''\<newline>            '',
           Element 21 ''li'' [] [Text ''Off-page link building strategies''],
           Text ''\<newline>            '',
           Element 22 ''li'' [] [Text ''Local SEO for Pakistani businesses''],
           Text ''\<newline>        ''],
        Text ''\<newline>        '',
        Element 23 ''p'' []
          [Text ''Contact Mansoor Ahmad for top-ranking SEO solutions in Pakistan.''],
        Text ''\<newline>    '']\<close>
  by code_simp

subsection \<open>Sets in insertion order\<close>



lemma set_foldl_Set_add: "set (foldl Set_add acc xs) = set acc \<union> set xs"
  by (induction xs arbitrary: acc) (auto simp: Set_add_def)






lemma new_Set_set: "set (new_Set xs) = set xs"
  by (simp add: new_Set_def set_foldl_Set_add)




lemma those_map_None:
  "x \<in> set xs \<Longrightarrow> f x = None \<Longrightarrow> those (map f xs) = None"
  by (induction xs) (auto split: option.splits)


lemmas sample_defs = sample_host_def sample_URLs_def link_page_def sample_page_def sample_body_def

lemmas sitemap_defs = generateDynamicSitemap_def anchor_hrefs_def querySelectorAll_def
  new_Set_def Set_add_def url_prop_def sitemap_entry_def createElement_def

subsection \<open>The sitemap block\<close>

text \<open>
  Claim C3, as the specification states it, says that an anchor whose \<^verbatim>\<open>href\<close> does not
  parse is skipped or shown with its raw string while the other anchors are still
  processed. \<^verbatim>\<open>generateDynamicSitemap\<close> calls \<^verbatim>\<open>new URL(link)\<close> with nothing around it
  that would catch the exception: on a page with three anchors whose second \<^verbatim>\<open>href\<close> is
  \<^verbatim>\<open>http://\<close> the call ends in a \<^verbatim>\<open>TypeError\<close> and no block is appended.
\<close>

theorem sitemap_malformed_href_counterexample:
  "generateDynamicSitemap sample_host (link_page [''/about'', ''http://'', ''/work''])
     = Inl TypeError"
  by (simp add: sample_defs sitemap_defs)

text \<open>
  Claim C3, amended. Whenever the \<^verbatim>\<open>href\<close> of some anchor of the page is a string that
  \<^verbatim>\<open>new URL\<close> rejects, \<^verbatim>\<open>generateDynamicSitemap\<close> throws a \<^verbatim>\<open>TypeError\<close>: the entry is
  neither skipped nor rendered from the raw string, and the pass appends nothing.
\<close>

theorem sitemap_malformed_href_throws:
  assumes "l \<in> set (anchor_hrefs h p)" and "URL_pathname h l = None"
  shows "generateDynamicSitemap h p = Inl TypeError"
proof -
  have "l \<in> set (new_Set (anchor_hrefs h p))" using assms(1) by (simp add: new_Set_set)
  moreover have "sitemap_entry h l = None" using assms(2) by (simp add: sitemap_entry_def)
  ultimately have "those (map (sitemap_entry h) (new_Set (anchor_hrefs h p))) = None"
    by (rule those_map_None)
  then show ?thesis
    by (simp add: generateDynamicSitemap_def Let_def createElement_def)
qed

theorem sitemap_malformed_href_throws_witness:
  "''http://['' \<in> set (anchor_hrefs sample_host (link_page [''http://['', ''/work''])) \<and>
   URL_pathname sample_host ''http://['' = None \<and>
   generateDynamicSitemap sample_host (link_page [''http://['', ''/work'']) = Inl TypeError"
proof -
  have m: "''http://['' \<in> set (anchor_hrefs sample_host (link_page [''http://['', ''/work'']))"
    by (simp add: sample_defs sitemap_defs)
  have n: "URL_pathname sample_host ''http://['' = None"
    by (simp add: sample_defs)
  from sitemap_malformed_href_throws [OF m n] m n show ?thesis by simp
qed




text \<open>
  The run behind the witness, evaluated: three anchors with two distinct \<^verbatim>\<open>href\<close> values
  give a list of two entries, and a page without anchors gets a block with an empty list.
\<close>

lemma sitemap_sample_page_entries:
  \<open>then_do (generateDynamicSitemap sample_host sample_page) (\<lambda>p'. Inr (body p')) =
     Inr (Some (Element 3 ''body'' [] (sample_body @
       [Element 14 ''div''
          [(''class'', ''hidden-sitemap''),
           (''style'', ''position:absolute;left:-9999px;width:1px;height:1px;overflow:hidden;'')]
          [Text ''\<newline>        '',
           Element 15 ''h2'' [] [Text ''Website Structure''],
           Text ''\<newline>        '',
           Element 16 ''ul'' []
             [Text ''\<newline>            '',
              Element 17 ''li'' []
                [Element 18 ''a'' [(''href'', ''https://example.com/about'')] [Text ''/about'']],
              Element 19 ''li'' []
                [Element 20 ''a'' [(''href'', ''https://example.com/work'')] [Text ''/work'']],
              Text ''\<newline>        ''],
           Text ''\<newline>    '']])))\<close>
  by code_simp

lemma sitemap_no_anchor_entries:
  \<open>then_do (generateDynamicSitemap sample_host (link_page [])) (\<lambda>p'. Inr (body p')) =
     Inr (Some (Element 2 ''body'' []
       [Element 3 ''div''
          [(''class'', ''hidden-sitemap''),
           (''style'', ''position:absolute;left:-9999px;width:1px;height:1px;overflow:hidden;'')]
          [Text ''\<newline>        '',
           Element 4 ''h2'' [] [Text ''Website Structure''],
           Text ''\<newline>        '',
           Element 5 ''ul'' [] [Text ''\<newline>            \<newline>        ''],
           Text ''\<newline>    '']]))\<close>
  by code_simp

subsection \<open>The indexing ping\<close>

lemma map_of_setAttr: "map_of (setAttr k v a) = (map_of a)(k \<mapsto> v)"
  by (induction a) (auto simp: fun_eq_iff)

text \<open>
  Claim C8. On every page with a root element and for every host,
  \<^verbatim>\<open>sendIndexingSignals\<close> returns normally. The ping, whose URL carries the
  \<^verbatim>\<open>encodeURIComponent\<close> of the origin followed by \<^verbatim>\<open>/sitemap.xml\<close>, is handed to
  \<^verbatim>\<open>sendBeacon\<close> exactly when the host has \<^verbatim>\<open>navigator.sendBeacon\<close>; without it nothing
  is sent. In both cases the root element ends with \<^verbatim>\<open>data-seo-enhanced="true"\<close> and its
  other attributes and its children as they were.
\<close>

theorem sendIndexingSignals_ping_iff_capability:
  assumes "documentElement p = Element i t a cs"
  shows "\<exists>p' a'. sendIndexingSignals h p = Inr p' \<and>
           beacons p' = (if has_sendBeacon h
                         then beacons p @ [''https://www.google.com/ping?sitemap='' @
                                encodeURIComponent (origin h @ ''/sitemap.xml'')]
                         else beacons p) \<and>
           documentElement p' = Element i t a' cs \<and>
           map_of a' = (map_of a)(''data-seo-enhanced'' \<mapsto> ''true'')"
  using assms
  by (simp add: sendIndexingSignals_def sendBeacon_def pingUrl_def map_of_setAttr)

theorem sendIndexingSignals_ping_iff_capability_witness:
  "documentElement sample_page = Element 0 ''html'' []
     [Element 1 ''head'' [] [Element 2 ''title'' [] [Text ''Portfolio'']],
      Element 3 ''body'' [] sample_body] \<and>
   (\<exists>p' a'. sendIndexingSignals sample_host sample_page = Inr p' \<and>
      beacons p' = [''https://www.google.com/ping?sitemap=https%3A%2F%2Fexample.com%2Fsitemap.xml''] \<and>
      documentElement p' = Element 0 ''html'' a'
        [Element 1 ''head'' [] [Element 2 ''title'' [] [Text ''Portfolio'']],
         Element 3 ''body'' [] sample_body] \<and>
      map_of a' = [''data-seo-enhanced'' \<mapsto> ''true''])"
proof -
  have d: "documentElement sample_page = Element 0 ''html'' []
     [Element 1 ''head'' [] [Element 2 ''title'' [] [Text ''Portfolio'']],
      Element 3 ''body'' [] sample_body]"
    by (simp add: sample_page_def)
  have e: "encodeURIComponent (origin sample_host @ ''/sitemap.xml'')
             = ''https%3A%2F%2Fexample.com%2Fsitemap.xml''"
    by (simp add: sample_host_def encodeURIComponent_def uri_unreserved_def percent_encode_def
        hex_digit_def)
  have c: "has_sendBeacon sample_host" "beacons sample_page = []"
    by (simp_all add: sample_host_def sample_page_def)
  from sendIndexingSignals_ping_iff_capability [OF d, of sample_host] d show ?thesis
    unfolding e by (simp add: c)
qed

subsection \<open>The structured-data scripts\<close>

lemma head_appendChild_Some:
  assumes "head p = Some (Element i t a ks)"
  shows "\<exists>p'. head_appendChild new p = Inr p' \<and>
           head p' = Some (Element i t a (ks @ [new])) \<and>
           title p' = title p \<and> next_id p' = next_id p \<and> beacons p' = beacons p \<and>
           console p' = console p \<and> listeners p' = listeners p"
proof -
  from assms have "has_tag ''head'' (Element i t a ks)"
    unfolding head_def html_child_def
    by (auto split: node.splits if_splits dest: find_SomeD)
  then have "\<And>k. has_tag ''head'' (Element i t a k)" by simp
  with assms show ?thesis
    unfolding head_def head_appendChild_def by (rule html_child_appendChild_Some)
qed

lemma head_createElement [simp]: "head (snd (createElement p)) = head p"
  by (simp add: createElement_def head_def html_child_def)

lemma generateSchema_Some:
  assumes "head p = Some (Element i t a ks)"
  shows "\<exists>p'. generateSchema schema p = Inr p' \<and>
           head p' = Some (Element i t a (ks @ [ld_json_script (next_id p) schema])) \<and>
           next_id p' = Suc (next_id p)"
proof -
  have "head (snd (createElement p)) = Some (Element i t a ks)" using assms by simp
  from head_appendChild_Some [OF this, of "ld_json_script (next_id p) schema"]
  show ?thesis by (auto simp: generateSchema_def createElement_def)
qed

text \<open>The three serialised records.\<close>

lemmas json_defs = quote_def json_escape_def show_nat.simps digit_char_def

lemma personSchema_text:
  \<open>JSON_stringify personSchema =
    ''{"@context":"https://schema.org","@type":"Person","name":"Mansoor Ahmad",'' @
    ''"image":"https://yourportfolio.com/images/photo.jpg","jobTitle":"SEO Specialist",'' @
    ''"description":"I help businesses rank higher on Google with proven SEO strategies.",'' @
    ''"url":"https://yourportfolio.com",'' @
    ''"sameAs":["https://linkedin.com/in/yourprofile","https://github.com/yourusername"],'' @
    ''"address":{"@type":"PostalAddress","addressLocality":"Lahore",'' @
    ''"addressRegion":"Punjab","addressCountry":"Pakistan"}}''\<close>
  by (simp add: personSchema_def json_defs)

lemma breadcrumbSchema_text:
  \<open>JSON_stringify breadcrumbSchema =
    ''{"@context":"https://schema.org","@type":"BreadcrumbList","itemListElement":['' @
    ''{"@type":"ListItem","position":1,"name":"Home","item":"https://yourportfolio.com/"},'' @
    ''{"@type":"ListItem","position":2,"name":"Portfolio",'' @
    ''"item":"https://yourportfolio.com/portfolio"},'' @
    ''{"@type":"ListItem","position":3,"name":"SEO Services",'' @
    ''"item":"https://yourportfolio.com/seo"}]}''\<close>
  by (simp add: breadcrumbSchema_def breadcrumbs_def json_defs)

lemma faqSchema_text:
  \<open>JSON_stringify faqSchema =
    ''{"@context":"https://schema.org","@type":"FAQPage","mainEntity":['' @
    ''{"@type":"Question","name":"What SEO services do you offer?",'' @
    ''"acceptedAnswer":{"@type":"Answer","text":'' @
    ''"I provide keyword research, on-page SEO, technical SEO, and link building."}},'' @
    ''{"@type":"Question","name":"How long does SEO take to show results?",'' @
    ''"acceptedAnswer":{"@type":"Answer","text":'' @
    ''"Typically 3-6 months for noticeable improvements."}}]}''\<close>
  by (simp add: faqSchema_def faqs_def json_defs)

text \<open>
  Claim C9. On every page that has a head, the three generators, called one after the
  other as the script does, all return normally and leave the head with three more
  children at its end, in the order Person, BreadcrumbList, FAQPage: each is a
  \<^verbatim>\<open>script\<close> element whose only attribute is \<^verbatim>\<open>type\<close> with the value
  \<^verbatim>\<open>application/ld+json\<close> and whose only child is one text node, holding the
  \<^verbatim>\<open>JSON.stringify\<close> serialisation of the record. The three serialisations are the JSON
  texts written out below, each one object whose member \<^verbatim>\<open>@type\<close> is the expected type,
  as it is in the record.
\<close>

theorem structured_data_three_scripts:
  assumes "head p = Some (Element i t a ks)"
  shows \<open>\<exists>p'. then_do (then_do (generatePersonSchema p) generateBreadcrumbSchema)
                 generateFAQSchema = Inr p' \<and>
           head p' = Some (Element i t a (ks @
             [Element (next_id p) ''script'' [(''type'', ''application/ld+json'')]
                [Text (JSON_stringify personSchema)],
              Element (next_id p + 1) ''script'' [(''type'', ''application/ld+json'')]
                [Text (JSON_stringify breadcrumbSchema)],
              Element (next_id p + 2) ''script'' [(''type'', ''application/ld+json'')]
                [Text (JSON_stringify faqSchema)]])) \<and>
           JSON_stringify personSchema =
             ''{"@context":"https://schema.org","@type":"Person","name":"Mansoor Ahmad",'' @
             ''"image":"https://yourportfolio.com/images/photo.jpg","jobTitle":"SEO Specialist",'' @
             ''"description":"I help businesses rank higher on Google with proven SEO strategies.",'' @
             ''"url":"https://yourportfolio.com",'' @
             ''"sameAs":["https://linkedin.com/in/yourprofile","https://github.com/yourusername"],'' @
             ''"address":{"@type":"PostalAddress","addressLocality":"Lahore",'' @
             ''"addressRegion":"Punjab","addressCountry":"Pakistan"}}'' \<and>
           JSON_stringify breadcrumbSchema =
             ''{"@context":"https://schema.org","@type":"BreadcrumbList","itemListElement":['' @
             ''{"@type":"ListItem","position":1,"name":"Home","item":"https://yourportfolio.com/"},'' @
             ''{"@type":"ListItem","position":2,"name":"Portfolio",'' @
             ''"item":"https://yourportfolio.com/portfolio"},'' @
             ''{"@type":"ListItem","position":3,"name":"SEO Services",'' @
             ''"item":"https://yourportfolio.com/seo"}]}'' \<and>
           JSON_stringify faqSchema =
             ''{"@context":"https://schema.org","@type":"FAQPage","mainEntity":['' @
             ''{"@type":"Question","name":"What SEO services do you offer?",'' @
             ''"acceptedAnswer":{"@type":"Answer","text":'' @
             ''"I provide keyword research, on-page SEO, technical SEO, and link building."}},'' @
             ''{"@type":"Question","name":"How long does SEO take to show results?",'' @
             ''"acceptedAnswer":{"@type":"Answer","text":'' @
             ''"Typically 3-6 months for noticeable improvements."}}]}'' \<and>
           member ''@type'' personSchema = Some (JString ''Person'') \<and>
           member ''@type'' breadcrumbSchema = Some (JString ''BreadcrumbList'') \<and>
           member ''@type'' faqSchema = Some (JString ''FAQPage'')\<close>
proof -
  from generateSchema_Some [OF assms, of personSchema]
  obtain p1 where 1: "generatePersonSchema p = Inr p1"
    and h1: "head p1 = Some (Element i t a (ks @ [ld_json_script (next_id p) personSchema]))"
    and n1: "next_id p1 = Suc (next_id p)"
    by (auto simp: generatePersonSchema_def)
  from generateSchema_Some [OF h1, of breadcrumbSchema]
  obtain p2 where 2: "generateBreadcrumbSchema p1 = Inr p2"
    and h2: "head p2 = Some (Element i t a ((ks @ [ld_json_script (next_id p) personSchema]) @
               [ld_json_script (next_id p1) breadcrumbSchema]))"
    and n2: "next_id p2 = Suc (next_id p1)"
    by (auto simp: generateBreadcrumbSchema_def)
  from generateSchema_Some [OF h2, of faqSchema]
  obtain p3 where 3: "generateFAQSchema p2 = Inr p3"
    and h3: "head p3 = Some (Element i t a (((ks @ [ld_json_script (next_id p) personSchema]) @
               [ld_json_script (next_id p1) breadcrumbSchema]) @
               [ld_json_script (next_id p2) faqSchema]))"
    by (auto simp: generateFAQSchema_def)
  have run: "then_do (then_do (generatePersonSchema p) generateBreadcrumbSchema)
      generateFAQSchema = Inr p3"
    using 1 2 3 by (simp add: then_do_def)
  have hd: "head p3 = Some (Element i t a (ks @
      [Element (next_id p) ''script'' [(''type'', ''application/ld+json'')]
         [Text (JSON_stringify personSchema)],
       Element (next_id p + 1) ''script'' [(''type'', ''application/ld+json'')]
         [Text (JSON_stringify breadcrumbSchema)],
       Element (next_id p + 2) ''script'' [(''type'', ''application/ld+json'')]
         [Text (JSON_stringify faqSchema)]]))"
    using h3 n1 n2 by (simp add: ld_json_script_def)
  have ty: "member ''@type'' personSchema = Some (JString ''Person'')"
    "member ''@type'' breadcrumbSchema = Some (JString ''BreadcrumbList'')"
    "member ''@type'' faqSchema = Some (JString ''FAQPage'')"
    by (simp_all add: personSchema_def breadcrumbSchema_def faqSchema_def)
  from run hd personSchema_text breadcrumbSchema_text faqSchema_text ty
  show ?thesis by blast
qed

theorem structured_data_three_scripts_witness:
  \<open>head sample_page = Some (Element 1 ''head'' [] [Element 2 ''title'' [] [Text ''Portfolio'']]) \<and>
   (\<exists>p'. then_do (then_do (generatePersonSchema sample_page) generateBreadcrumbSchema)
            generateFAQSchema = Inr p' \<and>
      head p' = Some (Element 1 ''head'' []
        ([Element 2 ''title'' [] [Text ''Portfolio'']] @
         [Element 14 ''script'' [(''type'', ''application/ld+json'')]
            [Text (JSON_stringify personSchema)],
          Element 15 ''script'' [(''type'', ''application/ld+json'')]
            [Text (JSON_stringify breadcrumbSchema)],
          Element 16 ''script'' [(''type'', ''application/ld+json'')]
            [Text (JSON_stringify faqSchema)]])))\<close>
proof -
  have hd: "head sample_page
      = Some (Element 1 ''head'' [] [Element 2 ''title'' [] [Text ''Portfolio'']])"
    by (simp add: head_def html_child_def sample_page_def)
  have n: "next_id sample_page = 14" by (simp add: sample_page_def)
  from structured_data_three_scripts [OF hd] obtain p'
    where "then_do (then_do (generatePersonSchema sample_page) generateBreadcrumbSchema)
            generateFAQSchema = Inr p'"
      and "head p' = Some (Element 1 ''head'' []
        ([Element 2 ''title'' [] [Text ''Portfolio'']] @
         [Element (next_id sample_page) ''script'' [(''type'', ''application/ld+json'')]
            [Text (JSON_stringify personSchema)],
          Element (next_id sample_page + 1) ''script'' [(''type'', ''application/ld+json'')]
            [Text (JSON_stringify breadcrumbSchema)],
          Element (next_id sample_page + 2) ''script'' [(''type'', ''application/ld+json'')]
            [Text (JSON_stringify faqSchema)]]))"
    by blast
  with hd show ?thesis unfolding n by auto
qed

subsection \<open>The structural annotation\<close>

lemmas dom_defs = querySelector_def querySelectorAll_def setAttribute_def getElement_def
  update_element_def getAttrs_def createElement_def body_def head_def html_child_def is_body_def
  body_appendChild_def head_appendChild_def html_child_appendChild_def classList_def
  new_Set_def Set_add_def is_space_def url_prop_def string_prop_def

text \<open>
  Claim C1 says that \<^verbatim>\<open>enhanceSemanticStructure\<close> never throws: a missing \<^verbatim>\<open>main\<close> or
  \<^verbatim>\<open>nav\<close> is passed over, and a portfolio item without a heading gets a label built from
  the empty string. The function calls \<^verbatim>\<open>setAttribute\<close> on the result of
  \<^verbatim>\<open>querySelector\<close> and reads \<^verbatim>\<open>textContent\<close> of \<^verbatim>\<open>item.querySelector('h3')\<close> without the
  test for \<^verbatim>\<open>null\<close> that \<^verbatim>\<open>addPriorityTags\<close> makes. On a page without \<^verbatim>\<open>main\<close>, on a
  page with \<^verbatim>\<open>main\<close> and without \<^verbatim>\<open>nav\<close>, and on a page whose portfolio item has no
  \<^verbatim>\<open>h3\<close>, the call ends in a \<^verbatim>\<open>TypeError\<close>.
\<close>

theorem enhanceSemanticStructure_throws_on_missing_element:
  "enhanceSemanticStructure (body_page [Element 3 ''nav'' [] []]) = Inl TypeError \<and>
   enhanceSemanticStructure (body_page [Element 3 ''main'' [] []]) = Inl TypeError \<and>
   enhanceSemanticStructure
     (body_page
        [Element 3 ''nav'' [] [],
         Element 4 ''main'' []
           [Element 5 ''div'' [(''class'', ''portfolio-item'')]
              [Element 6 ''p'' [] [Text ''Audit'']]]]) = Inl TypeError"
  by (simp add: enhanceSemanticStructure_def enhance_item_def body_page_def dom_defs)

subsection \<open>The order of the calls\<close>

lemma run_Cons:
  "run h (c # cs) p =
     (case perform h c p of
        Inl e \<Rightarrow> ([], Inl e)
      | Inr p' \<Rightarrow> (c # fst (run h cs p'), snd (run h cs p')))"
  by (simp split: sum.splits prod.splits)

lemma run_prefix: "prefix (fst (run h cs p)) cs"
proof (induction cs arbitrary: p)
  case Nil
  show ?case by simp
next
  case (Cons c cs)
  show ?case
  proof (cases "perform h c p")
    case (Inl e)
    then show ?thesis by (simp add: run_Cons del: run.simps)
  next
    case (Inr p')
    with Cons [of p'] show ?thesis by (simp add: run_Cons del: run.simps)
  qed
qed

lemma run_complete: "(fst (run h cs p) = cs) = (\<exists>p'. snd (run h cs p) = Inr p')"
proof (induction cs arbitrary: p)
  case Nil
  show ?case by simp
next
  case (Cons c cs)
  show ?case
  proof (cases "perform h c p")
    case (Inl e)
    then show ?thesis by (simp add: run_Cons del: run.simps)
  next
    case (Inr p')
    with Cons [of p'] show ?thesis by (simp add: run_Cons del: run.simps)
  qed
qed

lemma snd_run_Cons: "snd (run h (c # cs) p) = then_do (perform h c p) (\<lambda>q. snd (run h cs q))"
  by (simp add: then_do_def split: sum.splits prod.splits)

lemma then_do_assoc: "then_do (then_do r f) g = then_do r (\<lambda>x. then_do (f x) g)"
  by (simp add: then_do_def split: sum.splits)

lemma then_do_Inr: "then_do r Inr = r"
  by (simp add: then_do_def split: sum.splits)

lemma run_listener:
  "snd (run h DOMContentLoaded_listener p) =
     then_do (then_do (then_do (then_do (enhanceSemanticStructure p) (addBotOnlyContent h))
        (optimizeMediaLoading h)) (generateDynamicSitemap h)) (sendIndexingSignals h)"
  unfolding DOMContentLoaded_listener_def snd_run_Cons then_do_assoc
  by (simp add: then_do_Inr)

lemma run_script:
  "snd (run h script p) =
     then_do (then_do (then_do (then_do
        (then_do (Inr (p\<lparr>listeners := Suc (listeners p)\<rparr>)) (\<lambda>q. Inr (addPriorityTags q)))
        (\<lambda>q. then_do (analyzeKeywordDensity h q) (\<lambda>r. Inr (q\<lparr>console := console q @ [r]\<rparr>))))
        generatePersonSchema) generateBreadcrumbSchema) generateFAQSchema"
  unfolding script_def snd_run_Cons then_do_assoc
  by (simp add: then_do_Inr) (simp add: then_do_def split: sum.splits)

lemma has_tag_modify [simp]: "has_tag t (modify i f n) = has_tag t n"
  by (cases n) simp_all

lemma is_body_modify [simp]: "is_body (modify i f n) = is_body n"
  by (simp add: is_body_def)

lemma find_map_modify:
  "(\<And>n. P (modify i f n) = P n) \<Longrightarrow>
   find P (map (modify i f) cs) = map_option (modify i f) (find P cs)"
  by (induction cs) auto

lemma html_child_setAttribute:
  assumes "\<And>n. P (modify i (setAttr k v) n) = P n"
  shows "html_child P (setAttribute i k v p) = map_option (modify i (setAttr k v)) (html_child P p)"
  using find_map_modify [of P i "setAttr k v", OF assms]
  by (cases "documentElement p") (simp_all add: html_child_def setAttribute_def)

lemma html_child_addPriorityTag:
  assumes "\<And>i f n. P (modify i f n) = P n"
  shows "(html_child P (addPriorityTag sel p) = None) = (html_child P p = None)"
  by (simp add: addPriorityTag_def html_child_setAttribute assms split: option.splits)

lemma html_child_addPriorityTags:
  assumes "\<And>i f n. P (modify i f n) = P n"
  shows "(html_child P (addPriorityTags p) = None) = (html_child P p = None)"
  by (simp add: addPriorityTags_def importantSections_def html_child_addPriorityTag assms)


lemma script_completes:
  assumes "body p \<noteq> None" and "head p \<noteq> None"
  shows "fst (run h script p) = script"
proof -
  let ?q0 = "p\<lparr>listeners := Suc (listeners p)\<rparr>"
  let ?q1 = "addPriorityTags ?q0"
  have b0: "body ?q0 \<noteq> None" and h0: "head ?q0 \<noteq> None"
    using assms by (simp_all add: body_def head_def html_child_def)
  have b1: "body ?q1 \<noteq> None"
    using b0 html_child_addPriorityTags [of is_body ?q0] by (simp add: body_def)
  have h1: "head ?q1 \<noteq> None"
    using h0 html_child_addPriorityTags [of "has_tag ''head''" ?q0] by (simp add: head_def)
  from b1 obtain r where r: "analyzeKeywordDensity h ?q1 = Inr r"
    by (auto simp: analyzeKeywordDensity_def)
  let ?q2 = "?q1\<lparr>console := console ?q1 @ [r]\<rparr>"
  from h1 obtain x where x: "head ?q2 = Some x"
    by (auto simp: head_def html_child_def)
  then have "has_tag ''head'' x"
    by (auto simp: head_def html_child_def split: node.splits if_splits dest: find_SomeD)
  then obtain i t a ks where "x = Element i t a ks" by (cases x) simp_all
  with x have h2: "head ?q2 = Some (Element i t a ks)" by simp
  from generateSchema_Some [OF h2, of personSchema]
  obtain p3 where 3: "generatePersonSchema ?q2 = Inr p3"
    and h3: "head p3 = Some (Element i t a (ks @ [ld_json_script (next_id ?q2) personSchema]))"
    by (auto simp: generatePersonSchema_def)
  from generateSchema_Some [OF h3, of breadcrumbSchema]
  obtain p4 where 4: "generateBreadcrumbSchema p3 = Inr p4"
    and h4: "head p4 = Some (Element i t a
        ((ks @ [ld_json_script (next_id ?q2) personSchema]) @
         [ld_json_script (next_id p3) breadcrumbSchema]))"
    by (auto simp: generateBreadcrumbSchema_def)
  from generateSchema_Some [OF h4, of faqSchema]
  obtain p5 where 5: "generateFAQSchema p4 = Inr p5"
    by (auto simp: generateFAQSchema_def)
  have "snd (run h script p) = Inr p5"
    unfolding run_script using r 3 4 5 by (simp add: then_do_def)
  then show ?thesis using run_complete [of h script p] by simp
qed

text \<open>
  Claim C2, as the specification states it, places seven steps in the callback of the
  ready signal and only the three structured-data generators at the top level. On the
  sample page the callback runs to its end and has made five calls; the console is
  still empty and the section \<^verbatim>\<open>#about\<close> has no priority attribute afterwards. The
  priority tagging and the keyword report are among the six statements that the
  evaluation of the script itself runs, before the three generators.
\<close>

theorem ready_callback_seven_steps_counterexample:
  "fst (run sample_host DOMContentLoaded_listener sample_page) =
     [EnhanceSemanticStructure, AddBotOnlyContent, OptimizeMediaLoading,
      GenerateDynamicSitemap, SendIndexingSignals] \<and>
   (case snd (run sample_host DOMContentLoaded_listener sample_page) of
      Inl e \<Rightarrow> False
    | Inr p' \<Rightarrow> console p' = [] \<and> getAttrs 9 (documentElement p') = Some [(''id'', ''about'')]) \<and>
   fst (run sample_host script sample_page) =
     [AddEventListener, NewContentPrioritizer, KeywordReport,
      GeneratePersonSchema, GenerateBreadcrumbSchema, GenerateFAQSchema]"
proof -
  have "fst (run sample_host DOMContentLoaded_listener sample_page) =
     [EnhanceSemanticStructure, AddBotOnlyContent, OptimizeMediaLoading,
      GenerateDynamicSitemap, SendIndexingSignals] \<and>
   (case snd (run sample_host DOMContentLoaded_listener sample_page) of
      Inl e \<Rightarrow> False
    | Inr p' \<Rightarrow> console p' = [] \<and> getAttrs 9 (documentElement p') = Some [(''id'', ''about'')])"
    by code_simp
  moreover have "body sample_page \<noteq> None" "head sample_page \<noteq> None"
    by (simp_all add: body_def head_def html_child_def is_body_def sample_page_def)
  then have "fst (run sample_host script sample_page) = script"
    by (rule script_completes)
  ultimately show ?thesis by (simp add: script_def)
qed

text \<open>
  Claim C2, amended. For every host and page: the callback of the ready signal calls
  structural annotation, hidden-content injection, media-loading rewrite, sitemap
  generation and indexing ping, in this order, each on the page the one before left, and
  stops at the first that throws; the calls that have returned are an initial segment of
  these five, and all five have returned exactly when the callback returns normally.
  Priority tagging and the keyword density report are not in the callback. They run when
  the script is evaluated, whose top level registers the listener, tags the priority
  sections, computes and logs the keyword report and then calls the generators for
  Person, BreadcrumbList and FAQPage, in this order and under the same rule.
\<close>

theorem script_call_order:
  "prefix (fst (run h DOMContentLoaded_listener p))
     [EnhanceSemanticStructure, AddBotOnlyContent, OptimizeMediaLoading,
      GenerateDynamicSitemap, SendIndexingSignals] \<and>
   ((fst (run h DOMContentLoaded_listener p) =
       [EnhanceSemanticStructure, AddBotOnlyContent, OptimizeMediaLoading,
        GenerateDynamicSitemap, SendIndexingSignals])
     = (\<exists>p'. snd (run h DOMContentLoaded_listener p) = Inr p')) \<and>
   snd (run h DOMContentLoaded_listener p) =
     then_do (then_do (then_do (then_do (enhanceSemanticStructure p) (addBotOnlyContent h))
        (optimizeMediaLoading h)) (generateDynamicSitemap h)) (sendIndexingSignals h) \<and>
   prefix (fst (run h script p))
     [AddEventListener, NewContentPrioritizer, KeywordReport,
      GeneratePersonSchema, GenerateBreadcrumbSchema, GenerateFAQSchema] \<and>
   ((fst (run h script p) =
       [AddEventListener, NewContentPrioritizer, KeywordReport,
        GeneratePersonSchema, GenerateBreadcrumbSchema, GenerateFAQSchema])
     = (\<exists>p'. snd (run h script p) = Inr p')) \<and>
   snd (run h script p) =
     then_do (then_do (then_do (then_do
        (then_do (Inr (p\<lparr>listeners := Suc (listeners p)\<rparr>)) (\<lambda>q. Inr (addPriorityTags q)))
        (\<lambda>q. then_do (analyzeKeywordDensity h q)
                (\<lambda>r. Inr (q\<lparr>console := console q @ [r]\<rparr>))))
        generatePersonSchema) generateBreadcrumbSchema) generateFAQSchema"
  using run_prefix [of h DOMContentLoaded_listener p] run_prefix [of h script p]
    run_complete [of h DOMContentLoaded_listener p] run_complete [of h script p]
    run_listener [of h p] run_script [of h p]
  unfolding DOMContentLoaded_listener_def script_def by simp

text \<open>The priority tagging on the sample page, as the evaluation of the script does it.\<close>

lemma addPriorityTags_sample_page:
  "getAttrs 9 (documentElement (addPriorityTags sample_page)) =
     Some [(''id'', ''about''), (''data-seo-priority'', ''high''), (''aria-live'', ''polite'')]"
  by code_simp

subsection \<open>The keyword density report\<close>

lemma Canonicalize_ascii_lower [simp]: "Canonicalize (ascii_lower c) = Canonicalize c"
  by (simp add: Canonicalize_def ascii_lower_def)

lemma count_positions_Suc:
  "length (filter P [0..<Suc m]) = (if P 0 then 1 else 0) + length (filter (\<lambda>i. P (Suc i)) [0..<m])"
proof -
  have "[0..<Suc m] = 0 # map Suc [0..<m]"
    by (simp add: upt_conv_Cons map_Suc_upt del: upt_Suc)
  then show ?thesis by (simp add: filter_map comp_def del: upt_Suc)
qed

lemma count_positions_split:
  "d \<le> m \<Longrightarrow> length (filter P [0..<m]) =
     length (filter P [0..<d]) + length (filter (\<lambda>i. P (i + d)) [0..<m - d])"
proof -
  assume "d \<le> m"
  then have "[0..<m] = [0..<d] @ map (\<lambda>i. i + d) [0..<m - d]"
    by (metis add.commute add_0 le_add_diff_inverse map_add_upt upt_add_eq_append zero_le)
  then show ?thesis by (simp add: filter_map comp_def)
qed


lemma count_positions_first_only:
  assumes "0 < n" and "P 0" and "\<And>i. 0 < i \<Longrightarrow> i < n \<Longrightarrow> \<not> P i"
  shows "length (filter P [0..<n]) = 1"
proof -
  from assms(1) obtain m where n: "n = Suc m" by (cases n) auto
  have "filter (\<lambda>i. P (Suc i)) [0..<m] = []"
    using assms(3) n by (auto simp: filter_empty_conv)
  then show ?thesis
    unfolding n count_positions_Suc using assms(2) by simp
qed

lemma no_overlap:
  assumes "border_free k" and "take (length k) s = k" and "0 < i" and "i < length k"
  shows "take (length k) (drop i s) \<noteq> k"
proof
  assume a: "take (length k) (drop i s) = k"
  have "drop i k = drop i (take (length k) s)" using assms(2) by simp
  also have "\<dots> = take (length k - i) (drop i s)" by (simp add: drop_take)
  also have "\<dots> = take (length k - i) (take (length k) (drop i s))" by (simp add: min_def)
  also have "\<dots> = take (length k - i) k" using a by simp
  finally have "drop i k = take (length k - i) k" .
  moreover have "drop i k \<noteq> take (length k - i) k"
    using assms(1,3,4) by (simp add: border_free_def list_all_iff)
  ultimately show False by simp
qed

lemma match_count_occurrences:
  "kw \<noteq> [] \<Longrightarrow> border_free (map Canonicalize kw) \<Longrightarrow>
   match_count kw s = length (occurrences kw s)"
proof (induction kw s rule: match_count.induct)
  case (1 kw)
  show ?case by (simp add: occurrences_def)
next
  case (2 kw c cs)
  let ?s = "c # cs" and ?n = "length kw" and ?K = "map Canonicalize kw"
  let ?P = "\<lambda>i. map Canonicalize (take ?n (drop i ?s)) = ?K"
  note assms = "2.prems"
  have mh: "matches_here kw ?s = ?P 0" by (simp add: matches_here_def)
  show ?case
  proof (cases "?P 0")
    case True
    then have "length (map Canonicalize (take ?n (drop 0 ?s))) = length ?K" by simp
    then have le: "?n \<le> length ?s" by simp
    have npos: "0 < ?n" using assms(1) by simp
    have d: "drop ?n ?s = drop (?n - 1) cs" using npos by (cases ?n) simp_all
    have t: "take (length ?K) (map Canonicalize ?s) = ?K"
      using True by (metis drop0 length_map take_map)
    have first: "length (filter ?P [0..<?n]) = 1"
    proof (rule count_positions_first_only [OF npos])
      show "?P 0" by (rule True)
    next
      fix i assume "0 < i" "i < ?n"
      with no_overlap [OF assms(2) t, of i]
      have "take (length ?K) (drop i (map Canonicalize ?s)) \<noteq> ?K" by simp
      then show "\<not> ?P i" by (metis drop_map length_map take_map)
    qed
    have rest: "length (filter (\<lambda>i. ?P (i + ?n)) [0..<length ?s - ?n]) =
        length (occurrences kw (drop (?n - 1) cs))"
      unfolding occurrences_def d [symmetric] by (simp add: add.commute)
    have "match_count kw ?s = Suc (match_count kw (drop (?n - 1) cs))"
      using True mh by simp
    also have "\<dots> = Suc (length (occurrences kw (drop (?n - 1) cs)))"
      using "2.IH"(1) True mh assms by simp
    also have "\<dots> = length (filter ?P [0..<length ?s])"
      unfolding count_positions_split [OF le, of ?P] first rest by simp
    finally show ?thesis by (simp add: occurrences_def)
  next
    case False
    have "match_count kw ?s = match_count kw cs" using False mh by simp
    also have "\<dots> = length (occurrences kw cs)"
      using "2.IH"(2) False mh assms by simp
    also have "\<dots> = length (filter ?P [0..<length ?s])"
      using False count_positions_Suc [of ?P "length cs"] by (simp add: occurrences_def)
    finally show ?thesis by (simp add: occurrences_def)
  qed
qed

lemma occurrences_ascii_lower: "occurrences kw (map ascii_lower text) = occurrences kw text"
  by (simp add: occurrences_def take_map [symmetric] drop_map [symmetric] comp_def)

lemma keyword_list_ok:
  "list_all (\<lambda>k. k \<noteq> [] \<and> border_free (map Canonicalize k)) keyword_list"
  by (simp add: keyword_list_def Canonicalize_def border_free_def upt_rec)

lemma densityReport_entries:
  "densityReport content = map (\<lambda>kw. (kw, match_count kw content)) keyword_list"
  by (simp add: densityReport_def keyword_list_def)

text \<open>
  Claim C6, as the specification states it, counts the keywords in the visible text of
  the page. \<^verbatim>\<open>analyzeKeywordDensity\<close> reads \<^verbatim>\<open>document.body.textContent\<close>, which holds
  every text node of the body, shown or not. On a page whose body is a paragraph and an
  inline script that mentions \<^verbatim>\<open>portfolio\<close>, the visible text has no occurrence of that
  keyword and the report gives it the count 1.
\<close>

theorem keyword_count_visible_text_counterexample:
  "occurrences ''portfolio'' (spec_visible_text (Element 2 ''body'' [] script_body)) = [] \<and>
   count_of ''portfolio'' (analyzeKeywordDensity sample_host (body_page script_body)) = Some 1"
proof -
  have v: "occurrences ''portfolio'' (spec_visible_text (Element 2 ''body'' [] script_body)) = []"
    by code_simp
  have b: "body (body_page script_body) = Some (Element 2 ''body'' [] script_body)"
    by (simp add: body_def html_child_def body_page_def is_body_def)
  have c: "match_count ''portfolio''
      (toLowerCase sample_host (textContent (Element 2 ''body'' [] script_body))) = 1"
    by code_simp
  have "count_of ''portfolio'' (analyzeKeywordDensity sample_host (body_page script_body)) =
      map_of (map (\<lambda>kw. (kw, match_count kw
                (toLowerCase sample_host (textContent (Element 2 ''body'' [] script_body)))))
              keyword_list) ''portfolio''"
    by (simp add: count_of_def analyzeKeywordDensity_def b densityReport_entries)
  also have "\<dots> = Some 1"
    using c by (simp add: keyword_list_def del: textContent.simps)
  finally show ?thesis using v by simp
qed

text \<open>
  Claim C6, amended. On every page that has a body, \<^verbatim>\<open>analyzeKeywordDensity\<close> returns a
  report with one entry for each of the six keywords, in the order of the list. The text
  that is counted is the text content of the body, which is the text of all its text
  nodes, shown or not, after \<^verbatim>\<open>toLowerCase\<close>; the entry of a keyword is the number of
  places in it at which the keyword stands. When the text content holds ASCII characters
  only, this is the number of places in the text content itself at which the keyword
  stands in any letter case. The count of a keyword is a function of that text and of the
  keyword alone, so the other keywords have no part in it.
\<close>

theorem keyword_density_counts_occurrences:
  assumes "body p = Some b"
  shows "analyzeKeywordDensity h p =
           Inr (map (\<lambda>kw. (kw, length (occurrences kw (toLowerCase h (textContent b)))))
                  keyword_list) \<and>
         (is_ascii (textContent b) \<longrightarrow>
            analyzeKeywordDensity h p =
              Inr (map (\<lambda>kw. (kw, length (occurrences kw (textContent b)))) keyword_list))"
proof -
  have "map (\<lambda>kw. (kw, match_count kw (toLowerCase h (textContent b)))) keyword_list =
        map (\<lambda>kw. (kw, length (occurrences kw (toLowerCase h (textContent b))))) keyword_list"
    using keyword_list_ok by (auto simp: list_all_iff match_count_occurrences)
  then have 1: "analyzeKeywordDensity h p =
      Inr (map (\<lambda>kw. (kw, length (occurrences kw (toLowerCase h (textContent b)))))
             keyword_list)"
    using assms by (simp add: analyzeKeywordDensity_def densityReport_entries)
  have "is_ascii (textContent b) \<Longrightarrow>
      occurrences kw (toLowerCase h (textContent b)) = occurrences kw (textContent b)" for kw
    by (simp add: toLowerCase_def occurrences_ascii_lower)
  with 1 show ?thesis by simp
qed

theorem keyword_density_counts_occurrences_witness:
  "body sample_page = Some (Element 3 ''body'' [] sample_body) \<and>
   is_ascii (textContent (Element 3 ''body'' [] sample_body)) \<and>
   analyzeKeywordDensity sample_host sample_page =
     Inr (map (\<lambda>kw. (kw, length (occurrences kw
                 (textContent (Element 3 ''body'' [] sample_body)))))
            keyword_list)"
proof -
  have b: "body sample_page = Some (Element 3 ''body'' [] sample_body)"
    by (simp add: body_def html_child_def sample_page_def is_body_def)
  have a: "is_ascii (textContent (Element 3 ''body'' [] sample_body))"
    by code_simp
  from keyword_density_counts_occurrences [OF b, of sample_host] a b show ?thesis by blast
qed

text \<open>
  Reports, evaluated: a keyword that stands three times in three spellings, two keywords
  that share a word, and a text that spells a keyword with the Kelvin sign, which has no
  place at which the keyword stands, letter case ignored, and is counted once, since
  \<^verbatim>\<open>toLowerCase\<close> turns the sign into the letter.
\<close>

lemma keyword_in_three_spellings:
  "match_count ''seo specialist''
     (toLowerCase h ''SEO Specialist, seo specialist; Seo SPECIALIST'') = 3"
proof -
  have "is_ascii ''SEO Specialist, seo specialist; Seo SPECIALIST''" by code_simp
  moreover have "match_count ''seo specialist''
     (map ascii_lower ''SEO Specialist, seo specialist; Seo SPECIALIST'') = 3"
    by code_simp
  ultimately show ?thesis by (simp only: toLowerCase_def if_True)
qed

lemma keywords_sharing_a_word:
  "match_count ''technical seo'' (toLowerCase h ''Technical SEO Specialist'') = 1 \<and>
   match_count ''seo specialist'' (toLowerCase h ''Technical SEO Specialist'') = 1"
proof -
  have "is_ascii ''Technical SEO Specialist''" by code_simp
  moreover have "match_count ''technical seo'' (map ascii_lower ''Technical SEO Specialist'') = 1"
    "match_count ''seo specialist'' (map ascii_lower ''Technical SEO Specialist'') = 1"
    by code_simp+
  ultimately show ?thesis by (simp only: toLowerCase_def if_True)
qed

lemma keyword_with_kelvin_sign:
  "occurrences ''keyword research'' (kelvin_sign @ ''eyword research'') = [] \<and>
   count_of ''keyword research''
     (analyzeKeywordDensity sample_host
        (body_page [Element 3 ''p'' [] [Text (kelvin_sign @ ''eyword research'')]])) = Some 1"
  by code_simp

subsection \<open>Trees under attribute updates and insertions\<close>

lemma ids_Element [simp]: "ids (Element i t a cs) = i # concat (map ids cs)"
  by (simp add: ids_def [abs_def] map_concat comp_def)

lemma ids_Text [simp]: "ids (Text s) = []"
  by (simp_all add: ids_def)

lemma is_element_ids: "is_element i n \<Longrightarrow> i \<in> set (ids n)"
  by (cases n) simp_all

lemma elems_modify:
  "elems (modify j f n) = map (\<lambda>e. (fst e, fst (snd e), if fst e = j then f (snd (snd e)) else snd (snd e))) (elems n)"
proof (induction n)
  case (Element i t a cs)
  then have "map (\<lambda>c. elems (modify j f c)) cs =
      map (\<lambda>c. map (\<lambda>e. (fst e, fst (snd e), if fst e = j then f (snd (snd e)) else snd (snd e))) (elems c)) cs"
    by (intro map_cong) auto
  then have "concat (map (\<lambda>c. elems (modify j f c)) cs) =
      concat (map (\<lambda>c. map (\<lambda>e. (fst e, fst (snd e), if fst e = j then f (snd (snd e)) else snd (snd e))) (elems c)) cs)"
    by (rule arg_cong)
  then show ?case by (simp add: map_concat comp_def)
qed simp_all

lemma ids_modify [simp]: "ids (modify j f n) = ids n"
  by (simp add: ids_def elems_modify comp_def)

lemma modify_notin: "j \<notin> set (ids n) \<Longrightarrow> modify j f n = n"
  by (induction n) (auto simp: map_idI)

lemma is_element_modify [simp]: "is_element i (modify j f n) = is_element i n"
  by (cases n) simp_all

lemma modify_modify: "modify i f (modify i g n) = modify i (f \<circ> g) n"
  by (induction n) auto

lemma insertBefore_notin: "j \<notin> set (ids n) \<Longrightarrow> insertBefore j new n = n"
proof (induction n)
  case (Element i t a cs)
  have "\<And>c. c \<in> set cs \<Longrightarrow> \<not> is_element j c \<and> insertBefore j new c = c"
    using Element by (auto dest: is_element_ids)
  then have "map (\<lambda>c. if is_element j c then [new, c] else [insertBefore j new c]) cs
      = map (\<lambda>c. [c]) cs"
    by (intro map_cong) auto
  then have "concat (map (\<lambda>c. if is_element j c then [new, c] else [insertBefore j new c]) cs)
      = concat (map (\<lambda>c. [c]) cs)"
    by (rule arg_cong)
  then show ?case by simp
qed simp_all

lemma has_tag_insertBefore [simp]: "has_tag t (insertBefore j new n) = has_tag t n"
  by (cases n) simp_all

lemma is_element_insertBefore [simp]: "is_element i (insertBefore j new n) = is_element i n"
  by (cases n) simp_all

lemma mset_elems_insertBefore:
  "distinct (ids n) \<Longrightarrow>
   mset (elems (insertBefore j new n)) = mset (elems n) \<or>
   mset (elems (insertBefore j new n)) = mset (elems n) + mset (elems new)"
proof (induction n)
  case (Element i t a cs)
  let ?g = "\<lambda>c. if is_element j c then [new, c] else [insertBefore j new c]"
  have d: "distinct (idsF cs)" using Element.prems by simp
  have "mset (concat (map elems (concat (map ?g cs)))) = mset (concat (map elems cs)) \<or>
        mset (concat (map elems (concat (map ?g cs)))) = mset (concat (map elems cs)) + mset (elems new)"
    using Element.IH d
  proof (induction cs)
    case Nil
    show ?case by simp
  next
    case (Cons c cs)
    have dc: "distinct (ids c)" and dcs: "distinct (idsF cs)"
      and dis: "set (ids c) \<inter> set (idsF cs) = {}"
      using Cons.prems(2) by auto
    have IHcs: "mset (concat (map elems (concat (map ?g cs)))) = mset (concat (map elems cs)) \<or>
        mset (concat (map elems (concat (map ?g cs)))) = mset (concat (map elems cs)) + mset (elems new)"
      using Cons.IH Cons.prems(1) dcs by simp
    have IHc: "mset (elems (insertBefore j new c)) = mset (elems c) \<or>
        mset (elems (insertBefore j new c)) = mset (elems c) + mset (elems new)"
      using Cons.prems(1) dc by simp
    show ?case
    proof (cases "j \<in> set (ids c)")
      case True
      then have "j \<notin> set (idsF cs)" using dis by auto
      then have "\<And>c'. c' \<in> set cs \<Longrightarrow> j \<notin> set (ids c')" by auto
      then have "map ?g cs = map (\<lambda>c. [c]) cs"
        by (intro map_cong) (auto dest: is_element_ids simp: insertBefore_notin)
      then have "concat (map ?g cs) = concat (map (\<lambda>c. [c]) cs)" by (rule arg_cong)
      then have same: "concat (map ?g cs) = cs" by simp
      show ?thesis using IHc by (auto simp: same)
    next
      case False
      then have "\<not> is_element j c" "insertBefore j new c = c"
        by (auto dest: is_element_ids simp: insertBefore_notin)
      then show ?thesis using IHcs by auto
    qed
  qed
  then show ?case by auto
qed simp_all

lemma elems_insertBefore_mono:
  assumes "distinct (ids n)"
  shows "set (elems n) \<subseteq> set (elems (insertBefore j new n))"
  using mset_elems_insertBefore [OF assms, of j new]
  by (metis mset_subset_eq_add_left set_mset_mono set_mset_mset subset_refl)

lemma elems_insertBefore_sub:
  assumes "distinct (ids n)"
  shows "set (elems (insertBefore j new n)) \<subseteq> set (elems n) \<union> set (elems new)"
  using mset_elems_insertBefore [OF assms, of j new]
  by (metis Un_upper1 set_mset_mset set_mset_union subset_refl)

lemma ids_insertBefore_sub:
  assumes "distinct (ids n)"
  shows "set (ids (insertBefore j new n)) \<subseteq> set (ids n) \<union> set (ids new)"
  using elems_insertBefore_sub [OF assms, of j new] by (auto simp: ids_def)

lemma distinct_ids_insertBefore:
  assumes "distinct (ids n)" and "distinct (ids new)" and "set (ids n) \<inter> set (ids new) = {}"
  shows "distinct (ids (insertBefore j new n))"
proof -
  have m: "mset (ids (insertBefore j new n)) = mset (ids n) \<or>
        mset (ids (insertBefore j new n)) = mset (ids n) + mset (ids new)"
  proof -
    from mset_elems_insertBefore [OF assms(1), of j new] show ?thesis
    proof
      assume "mset (elems (insertBefore j new n)) = mset (elems n)"
      then have "image_mset fst (mset (elems (insertBefore j new n)))
          = image_mset fst (mset (elems n))" by simp
      then show ?thesis by (simp add: ids_def)
    next
      assume "mset (elems (insertBefore j new n)) = mset (elems n) + mset (elems new)"
      then have "image_mset fst (mset (elems (insertBefore j new n)))
          = image_mset fst (mset (elems n) + mset (elems new))" by simp
      then show ?thesis by (simp add: ids_def)
    qed
  qed
  have dn: "distinct (ids n @ ids new)" using assms by auto
  from m show ?thesis
  proof
    assume "mset (ids (insertBefore j new n)) = mset (ids n)"
    from mset_eq_imp_distinct_iff [OF this] assms(1) show ?thesis by simp
  next
    assume "mset (ids (insertBefore j new n)) = mset (ids n) + mset (ids new)"
    then have "mset (ids (insertBefore j new n)) = mset (ids n @ ids new)" by simp
    from mset_eq_imp_distinct_iff [OF this] dn show ?thesis by simp
  qed
qed

subsection \<open>The node before an element\<close>

lemma precedes_modify:
  "precedes x i n \<Longrightarrow> j \<notin> set (ids x) \<Longrightarrow> precedes x i (modify j f n)"
proof (induction rule: precedes.induct)
  case (here i v x k t a pre post)
  have "precedes (modify j f x) i
     (Element k t (if j = k then f a else a)
        (map (modify j f) pre @ modify j f x # modify j f v # map (modify j f) post))"
    by (rule precedes.here) (simp add: here.hyps)
  then show ?case using here.prems by (simp add: modify_notin)
next
  case (below c cs x i k t a)
  have "modify j f c \<in> set (map (modify j f) cs)" using below.hyps by simp
  from precedes.below [OF this below.IH [OF below.prems]] show ?case by simp
qed

lemma precedes_insertBefore:
  "precedes x i n \<Longrightarrow> j \<noteq> i \<Longrightarrow> j \<notin> set (ids x) \<Longrightarrow> precedes x i (insertBefore j new n)"
proof (induction rule: precedes.induct)
  case (here i v x k t a pre post)
  let ?g = "\<lambda>c. if is_element j c then [new, c] else [insertBefore j new c]"
  have gx: "?g x = [x]"
    using here.prems(2) by (auto dest: is_element_ids simp: insertBefore_notin)
  have nv: "\<not> is_element j v" using here.hyps here.prems(1) by (cases v) auto
  have "precedes x i (Element k t a
     (concat (map ?g pre) @ x # insertBefore j new v # concat (map ?g post)))"
    by (rule precedes.here) (simp add: here.hyps)
  then show ?case using gx nv by simp
next
  case (below c cs x i k t a)
  let ?g = "\<lambda>c. if is_element j c then [new, c] else [insertBefore j new c]"
  show ?case
  proof (cases "is_element j c")
    case True
    then have "c \<in> set (concat (map ?g cs))" using below.hyps(1) by auto
    from precedes.below [OF this below.hyps(2)] show ?thesis by simp
  next
    case False
    then have "insertBefore j new c \<in> set (concat (map ?g cs))" using below.hyps(1) by auto
    from precedes.below [OF this below.IH [OF below.prems]] show ?thesis by simp
  qed
qed

lemma precedes_self:
  "i \<in> set (ids n) \<Longrightarrow> \<not> is_element i n \<Longrightarrow> precedes new i (insertBefore i new n)"
proof (induction n)
  case (Element k t a cs)
  let ?g = "\<lambda>c. if is_element i c then [new, c] else [insertBefore i new c]"
  from Element.prems obtain c where c: "c \<in> set cs" "i \<in> set (ids c)" by auto
  show ?case
  proof (cases "is_element i c")
    case True
    from c(1) obtain pre post where cs: "cs = pre @ c # post" by (auto dest: split_list)
    have "precedes new i (Element k t a (concat (map ?g pre) @ new # c # concat (map ?g post)))"
      by (rule precedes.here) (rule True)
    then show ?thesis using True by (simp add: cs)
  next
    case False
    then have p: "precedes new i (insertBefore i new c)" using Element.IH c by simp
    have "insertBefore i new c \<in> set (concat (map ?g cs))"
      using c(1) False by auto
    from precedes.below [OF this p] show ?thesis by simp
  qed
qed simp_all

lemma in_set_tl: "x \<in> set (tl xs) \<Longrightarrow> x \<in> set xs"
  by (cases xs) auto

lemma precedes_proper: "precedes x i n \<Longrightarrow> i \<in> set (tl (ids n))"
  by (induction rule: precedes.induct) (auto dest: is_element_ids in_set_tl)

lemma previous_in_None: "\<forall>c\<in>set cs. \<not> is_element i c \<Longrightarrow> previous_in i cs = None"
  by (induction i cs rule: previous_in.induct) auto

lemma previousSibling_notin: "i \<notin> set (ids n) \<Longrightarrow> previousSibling i n = None"
proof (induction n)
  case (Element k t a cs)
  have "\<forall>c\<in>set cs. \<not> is_element i c" using Element.prems by (auto dest: is_element_ids)
  then have p: "previous_in i cs = None" by (rule previous_in_None)
  have "\<forall>c\<in>set cs. previousSibling i c = None" using Element by auto
  then have "first_some (map (previousSibling i) cs) = None"
    by (induction cs) auto
  then show ?case using p by simp
qed simp_all

lemma previous_in_split:
  "\<forall>u\<in>set pre. \<not> is_element i u \<Longrightarrow> \<not> is_element i x \<Longrightarrow> is_element i v \<Longrightarrow>
   previous_in i (pre @ x # v # post) = Some x"
proof (induction pre)
  case Nil
  then show ?case by simp
next
  case (Cons u pre)
  then have IH: "previous_in i (pre @ x # v # post) = Some x" by simp
  show ?case
  proof (cases pre)
    case Nil
    then show ?thesis using Cons.prems IH by simp
  next
    case (Cons w ws)
    then have "\<not> is_element i w" using Cons.prems \<open>\<forall>u\<in>set (u # pre). \<not> is_element i u\<close> by simp
    then show ?thesis using Cons IH by simp
  qed
qed

lemma first_some_split:
  "\<forall>u\<in>set pre. f u = None \<Longrightarrow> first_some (map f (pre @ c # post)) = first_some (f c # map f post)"
  by (induction pre) auto

lemma precedes_previousSibling:
  "precedes x i n \<Longrightarrow> distinct (ids n) \<Longrightarrow> previousSibling i n = Some x"
proof (induction rule: precedes.induct)
  case (here i v x k t a pre post)
  have iv: "i \<in> set (ids v)" using here.hyps by (rule is_element_ids)
  have d: "distinct (idsF pre @ ids x @ ids v @ idsF post)" using here.prems by simp
  have "\<forall>u\<in>set pre. \<not> is_element i u"
  proof
    fix u assume "u \<in> set pre"
    show "\<not> is_element i u"
    proof
      assume "is_element i u"
      then have "i \<in> set (idsF pre)" using \<open>u \<in> set pre\<close> by (auto dest: is_element_ids)
      with iv d show False by auto
    qed
  qed
  moreover have "\<not> is_element i x"
  proof
    assume "is_element i x"
    then have "i \<in> set (ids x)" by (rule is_element_ids)
    with iv d show False by auto
  qed
  ultimately show ?case using here.hyps by (simp add: previous_in_split)
next
  case (below c cs x i k t a)
  from precedes_proper [OF below.hyps(2)] have g: "i \<in> set (tl (ids c))" .
  have ic: "i \<in> set (ids c)" using g by (rule in_set_tl)
  from below.hyps(1) obtain pre post where cs: "cs = pre @ c # post" by (auto dest: split_list)
  have d: "distinct (idsF pre @ ids c @ idsF post)" using below.prems by (simp add: cs)
  have dc: "distinct (ids c)" using d by simp
  have nic: "\<not> is_element i c"
  proof
    assume "is_element i c"
    then show False using g dc by (cases c) auto
  qed
  have others: "\<forall>u\<in>set (pre @ post). i \<notin> set (ids u)"
    using d ic by auto
  have "\<forall>u\<in>set cs. \<not> is_element i u"
    using others nic by (auto simp: cs dest: is_element_ids)
  then have p: "previous_in i cs = None" by (rule previous_in_None)
  have "\<forall>u\<in>set pre. previousSibling i u = None"
    using others by (auto intro: previousSibling_notin)
  from first_some_split [OF this, of c post]
  have "first_some (map (previousSibling i) cs) = Some x"
    using below.IH [OF dc] unfolding cs by simp
  then show ?case using p by simp
qed

subsection \<open>Attributes and class tokens\<close>

lemma map_of_removeAttr: "map_of (removeAttr k a) = (map_of a)(k := None)"
  by (induction a) (auto simp: removeAttr_def fun_eq_iff)

lemma split_tokens_good:
  "\<forall>c\<in>set cur. \<not> is_space c \<Longrightarrow> \<forall>t\<in>set (split_tokens cur s). good_token t"
proof (induction s arbitrary: cur)
  case Nil
  then show ?case by (simp add: good_token_def)
next
  case (Cons a s)
  show ?case
  proof (cases "is_space a")
    case True
    have "\<forall>t\<in>set (split_tokens [] s). good_token t" by (rule Cons.IH) simp
    then show ?thesis using True Cons.prems by (simp add: good_token_def)
  next
    case False
    have "\<forall>t\<in>set (split_tokens (cur @ [a]) s). good_token t"
      by (rule Cons.IH) (use False Cons.prems in auto)
    then show ?thesis using False by simp
  qed
qed

lemma split_tokens_append:
  "\<forall>c\<in>set t. \<not> is_space c \<Longrightarrow> split_tokens cur (t @ rest) = split_tokens (cur @ t) rest"
  by (induction t arbitrary: cur) auto

lemma split_tokens_join:
  "\<forall>t\<in>set ts. good_token t \<Longrightarrow> split_tokens [] (join '' '' ts) = ts"
proof (induction "'' ''" ts rule: join.induct)
  case 1
  show ?case by simp
next
  case (2 x)
  then have "split_tokens [] (x @ []) = split_tokens ([] @ x) []"
    by (intro split_tokens_append) (simp add: good_token_def)
  then show ?case using 2 by (simp add: good_token_def)
next
  case (3 x y ys)
  have "split_tokens [] (x @ ('' '' @ join '' '' (y # ys))) =
        split_tokens ([] @ x) ('' '' @ join '' '' (y # ys))"
    using 3 by (intro split_tokens_append) (simp add: good_token_def)
  then show ?case using 3 by (simp add: good_token_def is_space_def)
qed

lemma classList_good: "\<forall>t\<in>set (classList a). good_token t"
  using split_tokens_good [of "[]"]
  by (auto simp: classList_def new_Set_def set_foldl_Set_add split: option.splits)

lemma classList_classList_add:
  assumes "good_token tok"
  shows "tok \<in> set (classList (classList_add tok a))"
proof -
  let ?ts = "Set_add (classList a) tok"
  have "\<forall>t\<in>set ?ts. good_token t"
    using classList_good [of a] assms by (auto simp: Set_add_def)
  then have "split_tokens [] (join '' '' ?ts) = ?ts" by (rule split_tokens_join)
  then have "classList (classList_add tok a) = new_Set ?ts"
    by (simp add: classList_def classList_add_def map_of_setAttr)
  then show ?thesis by (simp add: new_Set_def set_foldl_Set_add Set_add_def)
qed

lemma getAttrs_member:
  "distinct (ids n) \<Longrightarrow> (i, t, a) \<in> set (elems n) \<Longrightarrow> getAttrs i n = Some a"
  by (simp add: getAttrs_def ids_def)

lemma map_of_map_attrs:
  "map_option snd (map_of (map (\<lambda>e. (fst e, fst (snd e),
       if fst e = i then f (snd (snd e)) else snd (snd e))) xs) i)
   = map_option f (map_option snd (map_of xs i))"
  by (induction xs) auto

lemma getAttrs_modify_self:
  "getAttrs i (modify i f n) = map_option f (getAttrs i n)"
  unfolding getAttrs_def elems_modify by (rule map_of_map_attrs)

lemma elems_modify_self:
  "(i, t, a) \<in> set (elems n) \<Longrightarrow> (i, t, f a) \<in> set (elems (modify i f n))"
  unfolding elems_modify by force

lemma elems_modify_other:
  "(k, t, a) \<in> set (elems n) \<Longrightarrow> k \<noteq> i \<Longrightarrow> (k, t, a) \<in> set (elems (modify i f n))"
  unfolding elems_modify by force

subsection \<open>One round of the image loop\<close>

lemma alt_lazy_attrs: "string_prop ''alt'' (lazy_attrs h a b) = string_prop ''alt'' b"
  by (simp add: lazy_attrs_def string_prop_def classList_add_def map_of_setAttr map_of_removeAttr)

lemma ids_fallback [simp]: "ids (fallback_for h n a) = [n, Suc n]"
  by (simp add: fallback_for_def noscript_fallback_def)

lemma elems_fallback:
  "(k, t, b) \<in> set (elems (fallback_for h n a)) \<Longrightarrow> k = n \<or> k = Suc n"
  by (auto simp: fallback_for_def noscript_fallback_def)

lemma lazyload_img_skip:
  assumes "distinct (ids (documentElement p))" and "(i, t, a) \<in> set (elems (documentElement p))"
    and "truthy (img_loading h a)"
  shows "lazyload_img h i p = Inr p"
  using assms by (simp add: lazyload_img_def getAttrs_member)

lemma lazyload_img_do:
  assumes "distinct (ids (documentElement p))" and "(i, t, a) \<in> set (elems (documentElement p))"
    and "\<not> is_element i (documentElement p)" and "\<not> truthy (img_loading h a)"
  shows "lazyload_img h i p =
     Inr (p\<lparr>documentElement :=
              insertBefore i (fallback_for h (next_id p) a)
                (modify i (lazy_attrs h a) (documentElement p)),
            next_id := Suc (Suc (next_id p))\<rparr>)"
proof -
  have g: "getAttrs i (documentElement p) = Some a"
    using assms(1,2) by (rule getAttrs_member)
  show ?thesis
    using assms(3,4) g
    by (simp add: lazyload_img_def Let_def update_element_def createElement_def modify_modify
        getAttrs_modify_self parentNode_insertBefore_def fallback_for_def
        alt_lazy_attrs [unfolded lazy_attrs_def comp_def] lazy_attrs_def comp_def)
qed

lemma well_formed_root:
  assumes "well_formed p" and "(i, ''img'', a) \<in> set (elems (documentElement p))"
  shows "\<not> is_element i (documentElement p)"
proof
  assume e: "is_element i (documentElement p)"
  from assms(1) have h: "has_tag ''html'' (documentElement p)"
    and d: "distinct (map fst (elems (documentElement p)))"
    by (simp_all add: well_formed_def ids_def)
  from e h obtain ar cs where r: "documentElement p = Element i ''html'' ar cs"
    by (cases "documentElement p") auto
  then have "(i, ''html'', ar) \<in> set (elems (documentElement p))" by simp
  with assms(2) d have "(''img'', a) = (''html'', ar)"
    by (meson eq_key_imp_eq_value)
  then show False by simp
qed

lemma step_frame:
  assumes wf: "well_formed p" and m: "(j, ''img'', a) \<in> set (elems (documentElement p))"
  shows "\<exists>p1. lazyload_img h j p = Inr p1 \<and> well_formed p1 \<and> next_id p \<le> next_id p1 \<and>
           (\<forall>k t b. (k, t, b) \<in> set (elems (documentElement p)) \<and>
                    \<not> (k = j \<and> \<not> truthy (img_loading h b))
                \<longrightarrow> (k, t, b) \<in> set (elems (documentElement p1))) \<and>
           (\<forall>k t b. (k, t, b) \<in> set (elems (documentElement p1)) \<and> k \<noteq> j \<and> k < next_id p
                \<longrightarrow> (k, t, b) \<in> set (elems (documentElement p))) \<and>
           (\<exists>b. (j, ''img'', b) \<in> set (elems (documentElement p1))) \<and>
           (\<forall>x k. precedes x k (documentElement p) \<and>
                  (\<not> truthy (img_loading h a) \<longrightarrow> k \<noteq> j \<and> j \<notin> set (ids x))
                \<longrightarrow> precedes x k (documentElement p1)) \<and>
           (if truthy (img_loading h a) then p1 = p
            else (j, ''img'', lazy_attrs h a a) \<in> set (elems (documentElement p1)) \<and>
                 precedes (fallback_for h (next_id p) a) j (documentElement p1))"
proof (cases "truthy (img_loading h a)")
  case True
  from wf have d: "distinct (ids (documentElement p))" by (simp add: well_formed_def)
  from lazyload_img_skip [OF d m True] wf m True show ?thesis by auto
next
  case False
  let ?r = "documentElement p" and ?n = "next_id p"
  let ?m = "modify j (lazy_attrs h a) ?r"
  let ?new = "fallback_for h ?n a"
  let ?p1 = "p\<lparr>documentElement := insertBefore j ?new ?m, next_id := Suc (Suc ?n)\<rparr>"
  from wf have d: "distinct (ids ?r)" and b: "\<forall>i\<in>set (ids ?r). i < ?n"
    and ht: "has_tag ''html'' ?r"
    by (simp_all add: well_formed_def list_all_iff)
  have nr: "\<not> is_element j ?r" using wf m by (rule well_formed_root)
  have step: "lazyload_img h j p = Inr ?p1" using d m nr False by (rule lazyload_img_do)
  have dm: "distinct (ids ?m)" using d by simp
  have fresh: "set (ids ?m) \<inter> set (ids ?new) = {}" using b by auto
  have d1: "distinct (ids (insertBefore j ?new ?m))"
    using dm _ fresh by (rule distinct_ids_insertBefore) simp
  have b1: "\<forall>i\<in>set (ids (insertBefore j ?new ?m)). i < Suc (Suc ?n)"
    using ids_insertBefore_sub [OF dm, of j ?new] b by fastforce
  have wf1: "well_formed ?p1"
    using d1 b1 ht by (simp add: well_formed_def list_all_iff)
  have others: "\<forall>k t b. (k, t, b) \<in> set (elems ?r) \<and> k \<noteq> j
       \<longrightarrow> (k, t, b) \<in> set (elems (insertBefore j ?new ?m))"
    using elems_insertBefore_mono [OF dm, of j ?new] by (auto dest: elems_modify_other)
  have same: "\<forall>k t b. (k, t, b) \<in> set (elems ?r) \<and> k = j \<longrightarrow> b = a"
  proof (intro allI impI)
    fix k t b assume "(k, t, b) \<in> set (elems ?r) \<and> k = j"
    then have "(j, t, b) \<in> set (elems ?r)" by auto
    with m d have "(t, b) = (''img'', a)"
      unfolding ids_def by (meson eq_key_imp_eq_value)
    then show "b = a" by simp
  qed
  have older: "\<forall>k t b. (k, t, b) \<in> set (elems (insertBefore j ?new ?m)) \<and> k \<noteq> j \<and> k < ?n
       \<longrightarrow> (k, t, b) \<in> set (elems ?r)"
  proof (intro allI impI)
    fix k t b
    assume a: "(k, t, b) \<in> set (elems (insertBefore j ?new ?m)) \<and> k \<noteq> j \<and> k < ?n"
    then have "(k, t, b) \<in> set (elems ?m) \<union> set (elems ?new)"
      using elems_insertBefore_sub [OF dm, of j ?new] by auto
    moreover have "(k, t, b) \<notin> set (elems ?new)"
      using a by (auto dest: elems_fallback)
    ultimately have "(k, t, b) \<in> set (elems ?m)" by simp
    then show "(k, t, b) \<in> set (elems ?r)"
      using a unfolding elems_modify by auto
  qed
  have self: "(j, ''img'', lazy_attrs h a a) \<in> set (elems (insertBefore j ?new ?m))"
    using elems_modify_self [OF m, of "lazy_attrs h a"]
    by (rule subsetD [OF elems_insertBefore_mono [OF dm], rotated])
  have prec: "\<forall>x k. precedes x k ?r \<and> k \<noteq> j \<and> j \<notin> set (ids x)
       \<longrightarrow> precedes x k (insertBefore j ?new ?m)"
    by (auto intro!: precedes_insertBefore precedes_modify)
  have "fst (j, ''img'', a) \<in> fst ` set (elems ?r)" using m by (rule imageI)
  then have "j \<in> set (ids ?r)" by (simp add: ids_def)
  then have "j \<in> set (ids ?m)" by simp
  moreover have "\<not> is_element j ?m" using nr by simp
  ultimately have ps: "precedes ?new j (insertBefore j ?new ?m)" by (rule precedes_self)
  show ?thesis
  proof (intro exI [of _ ?p1] conjI)
    show "lazyload_img h j p = Inr ?p1" by (rule step)
    show "well_formed ?p1" by (rule wf1)
    show "next_id p \<le> next_id ?p1" by simp
    show "\<forall>k t b. (k, t, b) \<in> set (elems ?r) \<and> \<not> (k = j \<and> \<not> truthy (img_loading h b))
                \<longrightarrow> (k, t, b) \<in> set (elems (documentElement ?p1))"
      using others same False by (simp del: insertBefore.simps) blast
    show "\<forall>k t b. (k, t, b) \<in> set (elems (documentElement ?p1)) \<and> k \<noteq> j \<and> k < ?n
                \<longrightarrow> (k, t, b) \<in> set (elems ?r)"
      using older by simp
    show "\<exists>b. (j, ''img'', b) \<in> set (elems (documentElement ?p1))"
      using self by auto
    show "\<forall>x k. precedes x k ?r \<and> (\<not> truthy (img_loading h a) \<longrightarrow> k \<noteq> j \<and> j \<notin> set (ids x))
                \<longrightarrow> precedes x k (documentElement ?p1)"
      using prec False by simp
    show "if truthy (img_loading h a) then ?p1 = p
          else (j, ''img'', lazy_attrs h a a) \<in> set (elems (documentElement ?p1)) \<and>
               precedes ?new j (documentElement ?p1)"
      using False self ps by simp
  qed
qed

subsection \<open>The whole image loop\<close>

lemma forEach_append:
  "forEach f (xs @ ys) s = (case forEach f xs s of Inl e \<Rightarrow> Inl e | Inr s' \<Rightarrow> forEach f ys s')"
  by (induction xs arbitrary: s) (auto split: sum.splits)

lemma elems_ids: "(k, t, b) \<in> set (elems n) \<Longrightarrow> k \<in> set (ids n)"
  unfolding ids_def by force

lemma well_formed_bound:
  "well_formed p \<Longrightarrow> (k, t, b) \<in> set (elems (documentElement p)) \<Longrightarrow> k < next_id p"
  by (auto simp: well_formed_def list_all_iff dest: elems_ids)

lemma forEach_frame:
  assumes "well_formed p" and "distinct L"
    and "\<forall>j\<in>set L. \<exists>a. (j, ''img'', a) \<in> set (elems (documentElement p))"
  shows "\<exists>p'. forEach (lazyload_img h) L p = Inr p' \<and> well_formed p' \<and> next_id p \<le> next_id p' \<and>
     (\<forall>k t b. (k, t, b) \<in> set (elems (documentElement p)) \<and>
              \<not> (k \<in> set L \<and> \<not> truthy (img_loading h b))
          \<longrightarrow> (k, t, b) \<in> set (elems (documentElement p'))) \<and>
     (\<forall>x k. precedes x k (documentElement p) \<and>
            (\<forall>j b. j \<in> set L \<and> (j, ''img'', b) \<in> set (elems (documentElement p)) \<and>
                   \<not> truthy (img_loading h b) \<longrightarrow> j \<noteq> k \<and> j \<notin> set (ids x))
          \<longrightarrow> precedes x k (documentElement p'))"
  using assms
proof (induction L arbitrary: p)
  case Nil
  then show ?case by simp
next
  case (Cons j L)
  from Cons.prems(3) obtain a where m: "(j, ''img'', a) \<in> set (elems (documentElement p))"
    by auto
  from step_frame [OF Cons.prems(1) m, of h] obtain p1 where
    s: "lazyload_img h j p = Inr p1" and wf1: "well_formed p1" and n1: "next_id p \<le> next_id p1"
    and A1: "\<And>k t b. (k, t, b) \<in> set (elems (documentElement p)) \<Longrightarrow>
               \<not> (k = j \<and> \<not> truthy (img_loading h b)) \<Longrightarrow>
               (k, t, b) \<in> set (elems (documentElement p1))"
    and C1: "\<And>k t b. (k, t, b) \<in> set (elems (documentElement p1)) \<Longrightarrow> k \<noteq> j \<Longrightarrow>
               k < next_id p \<Longrightarrow> (k, t, b) \<in> set (elems (documentElement p))"
    and B1: "\<And>x k. precedes x k (documentElement p) \<Longrightarrow>
               (\<not> truthy (img_loading h a) \<longrightarrow> k \<noteq> j \<and> j \<notin> set (ids x)) \<Longrightarrow>
               precedes x k (documentElement p1)"
    by blast
  have jL: "j \<notin> set L" and dL: "distinct L" using Cons.prems(2) by simp_all
  have imgs1: "\<forall>j'\<in>set L. \<exists>a'. (j', ''img'', a') \<in> set (elems (documentElement p1))"
  proof
    fix j' assume j': "j' \<in> set L"
    with Cons.prems(3) obtain a' where "(j', ''img'', a') \<in> set (elems (documentElement p))"
      by auto
    moreover have "j' \<noteq> j" using j' jL by auto
    ultimately show "\<exists>a'. (j', ''img'', a') \<in> set (elems (documentElement p1))"
      using A1 by blast
  qed
  from Cons.IH [OF wf1 dL imgs1] obtain p' where
    f: "forEach (lazyload_img h) L p1 = Inr p'" and wf': "well_formed p'"
    and n': "next_id p1 \<le> next_id p'"
    and A: "\<And>k t b. (k, t, b) \<in> set (elems (documentElement p1)) \<Longrightarrow>
               \<not> (k \<in> set L \<and> \<not> truthy (img_loading h b)) \<Longrightarrow>
               (k, t, b) \<in> set (elems (documentElement p'))"
    and B: "\<And>x k. precedes x k (documentElement p1) \<Longrightarrow>
               (\<forall>j b. j \<in> set L \<and> (j, ''img'', b) \<in> set (elems (documentElement p1)) \<and>
                   \<not> truthy (img_loading h b) \<longrightarrow> j \<noteq> k \<and> j \<notin> set (ids x)) \<Longrightarrow>
               precedes x k (documentElement p')"
    by blast
  show ?case
  proof (intro exI [of _ p'] conjI allI impI)
    show "forEach (lazyload_img h) (j # L) p = Inr p'" using s f by simp
    show "well_formed p'" by (rule wf')
    show "next_id p \<le> next_id p'" using n1 n' by simp
  next
    fix k t b
    assume "(k, t, b) \<in> set (elems (documentElement p)) \<and>
            \<not> (k \<in> set (j # L) \<and> \<not> truthy (img_loading h b))"
    then show "(k, t, b) \<in> set (elems (documentElement p'))"
      by (intro A A1) auto
  next
    fix x k
    assume H: "precedes x k (documentElement p) \<and>
       (\<forall>j' b. j' \<in> set (j # L) \<and> (j', ''img'', b) \<in> set (elems (documentElement p)) \<and>
              \<not> truthy (img_loading h b) \<longrightarrow> j' \<noteq> k \<and> j' \<notin> set (ids x))"
    then have 1: "precedes x k (documentElement p1)"
      using m by (intro B1) auto
    show "precedes x k (documentElement p')"
    proof (rule B [OF 1], intro allI impI)
      fix j' b
      assume a: "j' \<in> set L \<and> (j', ''img'', b) \<in> set (elems (documentElement p1)) \<and>
                 \<not> truthy (img_loading h b)"
      then have "j' \<noteq> j" using jL by auto
      moreover from a Cons.prems(3) obtain a' where
        "(j', ''img'', a') \<in> set (elems (documentElement p))" by auto
      then have "j' < next_id p" using Cons.prems(1) by (rule well_formed_bound [rotated])
      ultimately have "(j', ''img'', b) \<in> set (elems (documentElement p))"
        using a by (intro C1) auto
      then show "j' \<noteq> k \<and> j' \<notin> set (ids x)" using H a by auto
    qed
  qed
qed

lemma img_ids_distinct: "well_formed p \<Longrightarrow> distinct (img_ids p)"
  by (simp add: img_ids_def querySelectorAll_def well_formed_def ids_def distinct_map_filter)

lemma img_ids_img:
  "j \<in> set (img_ids p) \<Longrightarrow> \<exists>a. (j, ''img'', a) \<in> set (elems (documentElement p))"
  by (auto simp: img_ids_def querySelectorAll_def)

lemma img_ids_member:
  "(i, ''img'', a) \<in> set (elems (documentElement p)) \<Longrightarrow> i \<in> set (img_ids p)"
  by (force simp: img_ids_def querySelectorAll_def)

lemma optimizeMediaLoading_forEach:
  "optimizeMediaLoading h p = forEach (lazyload_img h) (img_ids p) p"
  by (simp add: optimizeMediaLoading_def img_ids_def)

lemma lazy_attrs_facts:
  "map_of (lazy_attrs h a a) ''src'' = None"
  "map_of (lazy_attrs h a a) ''data-src'' = Some (url_prop h ''src'' a)"
  "''lazyload'' \<in> set (classList (lazy_attrs h a a))"
proof -
  show "map_of (lazy_attrs h a a) ''src'' = None"
    by (simp add: lazy_attrs_def classList_add_def map_of_setAttr map_of_removeAttr)
  show "map_of (lazy_attrs h a a) ''data-src'' = Some (url_prop h ''src'' a)"
    by (simp add: lazy_attrs_def classList_add_def map_of_setAttr map_of_removeAttr)
  have "good_token ''lazyload''" by (simp add: good_token_def is_space_def)
  then show "''lazyload'' \<in> set (classList (lazy_attrs h a a))"
    by (simp add: lazy_attrs_def classList_classList_add)
qed


subsection \<open>The test of line 64\<close>

text \<open>
  The loop rewrites an image when \<^verbatim>\<open>!img.loading\<close> holds. The test reads the property,
  not the content attribute: on a DOM that implements the property its value is
  \<^verbatim>\<open>lazy\<close> or \<^verbatim>\<open>eager\<close> and never falsy, and on a DOM that does not implement it the value
  is \<^verbatim>\<open>undefined\<close> for every image. So the pass rewrites no image at all on the former and
  every image on the latter, whether the image carries a \<^verbatim>\<open>loading\<close> attribute or not.
\<close>

lemma img_loading_with_property: "has_loading h \<Longrightarrow> truthy (img_loading h a)"
  by (simp add: img_loading_def truthy_def)

lemma img_loading_without_property: "\<not> has_loading h \<Longrightarrow> \<not> truthy (img_loading h a)"
  by (simp add: img_loading_def truthy_def)

lemma forEach_lazyload_img_with_property:
  "has_loading h \<Longrightarrow> forEach (lazyload_img h) L p = Inr p"
  by (induction L)
     (simp_all add: lazyload_img_def img_loading_with_property split: option.splits)

lemma optimizeMediaLoading_with_loading_property:
  "has_loading h \<Longrightarrow> optimizeMediaLoading h p = Inr p"
  by (simp add: optimizeMediaLoading_def forEach_lazyload_img_with_property)

text \<open>
  On a DOM without the property, and on every well-formed page, every image element is
  rewritten: afterwards it has no \<^verbatim>\<open>src\<close> attribute, has \<^verbatim>\<open>lazyload\<close> among its class
  tokens, has a \<^verbatim>\<open>data-src\<close> attribute equal to the value its \<^verbatim>\<open>src\<close> property had, and its
  previous sibling is a \<^verbatim>\<open>noscript\<close> element whose only child is an image with that same
  value as \<^verbatim>\<open>src\<close> and, as \<^verbatim>\<open>alt\<close>, the \<^verbatim>\<open>alt\<close> of the image or \<^verbatim>\<open>Portfolio image\<close> when
  that is empty or absent.
\<close>

lemma optimizeMediaLoading_without_loading_property:
  assumes "well_formed p"
    and "(i, ''img'', a) \<in> set (elems (documentElement p))"
    and "\<not> has_loading h"
  shows "\<exists>p' a' n f. optimizeMediaLoading h p = Inr p' \<and>
           getAttrs i (documentElement p') = Some a' \<and>
           map_of a' ''src'' = None \<and>
           ''lazyload'' \<in> set (classList a') \<and>
           map_of a' ''data-src'' = Some (url_prop h ''src'' a) \<and>
           previousSibling i (documentElement p') =
             Some (Element n ''noscript'' []
               [Element f ''img''
                  [(''src'', url_prop h ''src'' a),
                   (''alt'', if string_prop ''alt'' a = [] then ''Portfolio image''
                             else string_prop ''alt'' a)] []])"
proof -
  have falsy: "\<not> truthy (img_loading h a)"
    using assms(3) by (simp add: img_loading_without_property)
  let ?L = "img_ids p"
  have dL: "distinct ?L" using assms(1) by (rule img_ids_distinct)
  have "i \<in> set ?L" using assms(2) by (rule img_ids_member)
  then obtain L1 L2 where L: "?L = L1 @ i # L2" by (auto dest: split_list)
  have d1: "distinct L1" and d2: "distinct L2" and i1: "i \<notin> set L1" and i2: "i \<notin> set L2"
    using dL unfolding L by auto
  have imgs: "\<And>j. j \<in> set ?L \<Longrightarrow> \<exists>b. (j, ''img'', b) \<in> set (elems (documentElement p))"
    by (rule img_ids_img)
  have imgs1: "\<forall>j\<in>set L1. \<exists>b. (j, ''img'', b) \<in> set (elems (documentElement p))"
    using imgs unfolding L by simp
  from forEach_frame [OF assms(1) d1 imgs1, of h] obtain p1 where
    f1: "forEach (lazyload_img h) L1 p = Inr p1" and wf1: "well_formed p1"
    and n1: "next_id p \<le> next_id p1"
    and A1: "\<And>k t b. (k, t, b) \<in> set (elems (documentElement p)) \<Longrightarrow>
               \<not> (k \<in> set L1 \<and> \<not> truthy (img_loading h b)) \<Longrightarrow>
               (k, t, b) \<in> set (elems (documentElement p1))"
    by blast
  have m1: "(i, ''img'', a) \<in> set (elems (documentElement p1))"
    using assms(2) i1 by (intro A1) auto
  from step_frame [OF wf1 m1, of h] falsy obtain p2 where
    s: "lazyload_img h i p1 = Inr p2" and wf2: "well_formed p2"
    and n2: "next_id p1 \<le> next_id p2"
    and A2: "\<And>k t b. (k, t, b) \<in> set (elems (documentElement p1)) \<Longrightarrow>
               \<not> (k = i \<and> \<not> truthy (img_loading h b)) \<Longrightarrow>
               (k, t, b) \<in> set (elems (documentElement p2))"
    and self: "(i, ''img'', lazy_attrs h a a) \<in> set (elems (documentElement p2))"
    and pre: "precedes (fallback_for h (next_id p1) a) i (documentElement p2)"
    by (simp del: insertBefore.simps) blast
  have imgs2: "\<forall>j\<in>set L2. \<exists>b. (j, ''img'', b) \<in> set (elems (documentElement p2))"
  proof
    fix j assume j: "j \<in> set L2"
    then have "j \<in> set ?L" unfolding L by simp
    from imgs [OF this] obtain b where b: "(j, ''img'', b) \<in> set (elems (documentElement p))" ..
    have "j \<notin> set L1" "j \<noteq> i" using dL j unfolding L by auto
    then have "(j, ''img'', b) \<in> set (elems (documentElement p2))"
      using b by (intro A2 A1) auto
    then show "\<exists>b. (j, ''img'', b) \<in> set (elems (documentElement p2))" ..
  qed
  from forEach_frame [OF wf2 d2 imgs2, of h] obtain p' where
    f2: "forEach (lazyload_img h) L2 p2 = Inr p'" and wf': "well_formed p'"
    and A: "\<And>k t b. (k, t, b) \<in> set (elems (documentElement p2)) \<Longrightarrow>
               \<not> (k \<in> set L2 \<and> \<not> truthy (img_loading h b)) \<Longrightarrow>
               (k, t, b) \<in> set (elems (documentElement p'))"
    and B: "\<And>x k. precedes x k (documentElement p2) \<Longrightarrow>
               (\<forall>j b. j \<in> set L2 \<and> (j, ''img'', b) \<in> set (elems (documentElement p2)) \<and>
                   \<not> truthy (img_loading h b) \<longrightarrow> j \<noteq> k \<and> j \<notin> set (ids x)) \<Longrightarrow>
               precedes x k (documentElement p')"
    by blast
  have run: "optimizeMediaLoading h p = Inr p'"
    unfolding optimizeMediaLoading_forEach L using f1 s f2 by (simp add: forEach_append)
  have "(i, ''img'', lazy_attrs h a a) \<in> set (elems (documentElement p'))"
    using self i2 by (intro A) auto
  moreover have "distinct (ids (documentElement p'))" using wf' by (simp add: well_formed_def)
  ultimately have g: "getAttrs i (documentElement p') = Some (lazy_attrs h a a)"
    by (intro getAttrs_member)
  have "precedes (fallback_for h (next_id p1) a) i (documentElement p')"
  proof (rule B [OF pre], intro allI impI)
    fix j b
    assume a: "j \<in> set L2 \<and> (j, ''img'', b) \<in> set (elems (documentElement p2)) \<and>
               \<not> truthy (img_loading h b)"
    then have "j \<in> set ?L" unfolding L by simp
    from imgs [OF this] obtain c where "(j, ''img'', c) \<in> set (elems (documentElement p))" ..
    then have "j < next_id p" using assms(1) by (rule well_formed_bound [rotated])
    then have "j < next_id p1" using n1 by simp
    moreover have "j \<noteq> i" using a i2 by auto
    ultimately show "j \<noteq> i \<and> j \<notin> set (ids (fallback_for h (next_id p1) a))" by simp
  qed
  then have ps: "previousSibling i (documentElement p') = Some (fallback_for h (next_id p1) a)"
    using \<open>distinct (ids (documentElement p'))\<close> by (rule precedes_previousSibling)
  show ?thesis
    using run g ps lazy_attrs_facts [of h a]
    by (simp add: fallback_for_def noscript_fallback_def)
qed



text \<open>
  Claim C5 says that every image without the native lazy-loading marker is rewritten.
  In a current browser, which implements the property, the image with identity 13 of the
  sample page has no \<^verbatim>\<open>loading\<close> attribute, its \<^verbatim>\<open>loading\<close> property is \<^verbatim>\<open>eager\<close>, and the
  pass returns the page as it was: the image keeps its \<^verbatim>\<open>src\<close>, gets no \<^verbatim>\<open>data-src\<close> and
  no class, and its previous sibling is still the image before it, not a \<^verbatim>\<open>noscript\<close>
  fallback.
\<close>

theorem optimizeMediaLoading_skips_unmarked_image:
  "has_loading sample_host \<and>
   getAttrs 13 (documentElement sample_page) = Some [(''src'', ''/b.jpg'')] \<and>
   map_of [(''src'', ''/b.jpg'')] ''loading'' = None \<and>
   img_loading sample_host [(''src'', ''/b.jpg'')] = Some ''eager'' \<and>
   optimizeMediaLoading sample_host sample_page = Inr sample_page \<and>
   previousSibling 13 (documentElement sample_page) =
     Some (Element 12 ''img'' [(''src'', ''/a.jpg''), (''loading'', ''lazy'')] [])"
proof -
  have h: "has_loading sample_host" by (simp add: sample_host_def)
  have "getAttrs 13 (documentElement sample_page) = Some [(''src'', ''/b.jpg'')]"
    by code_simp
  moreover have "img_loading sample_host [(''src'', ''/b.jpg'')] = Some ''eager''"
    by code_simp
  moreover have "previousSibling 13 (documentElement sample_page) =
     Some (Element 12 ''img'' [(''src'', ''/a.jpg''), (''loading'', ''lazy'')] [])"
    by code_simp
  ultimately show ?thesis
    using h optimizeMediaLoading_with_loading_property [OF h, of sample_page] by simp
qed

text \<open>
  Claim C10 says that an image that carries the native lazy-loading marker is left as
  it is. On a DOM that does not implement the property, the image with identity 12 of the
  sample page, which carries \<^verbatim>\<open>loading="lazy"\<close>, is rewritten like every other image: the
  pass takes its \<^verbatim>\<open>src\<close> away, gives it \<^verbatim>\<open>data-src\<close> and the class \<^verbatim>\<open>lazyload\<close>, and puts a
  \<^verbatim>\<open>noscript\<close> fallback before it, where the heading was its previous sibling.
\<close>

theorem optimizeMediaLoading_rewrites_marked_image:
  "has_loading legacy_host = False \<and>
   getAttrs 12 (documentElement sample_page) =
     Some [(''src'', ''/a.jpg''), (''loading'', ''lazy'')] \<and>
   previousSibling 12 (documentElement sample_page) =
     Some (Element 11 ''h3'' [] [Text ''Site audit'']) \<and>
   img_loading legacy_host [(''src'', ''/a.jpg''), (''loading'', ''lazy'')] = None \<and>
   (case optimizeMediaLoading legacy_host sample_page of
      Inl e \<Rightarrow> False
    | Inr p' \<Rightarrow>
        getAttrs 12 (documentElement p') =
          Some [(''loading'', ''lazy''), (''data-src'', ''https://example.com/a.jpg''),
                (''class'', ''lazyload'')] \<and>
        previousSibling 12 (documentElement p') =
          Some (Element 14 ''noscript'' []
                  [Element 15 ''img''
                     [(''src'', ''https://example.com/a.jpg''), (''alt'', ''Portfolio image'')]
                     []]))"
  by code_simp

end
